theory Spec2Isabelle
  imports Complex_Main "HOL-Library.Monad_Syntax" "HOL-Library.Multiset"
begin

section \<open>Worker-to-station assignment engine (Algorithm.py)\<close>

text \<open>
  A shallow embedding of \<^verbatim>\<open>src/alg/Algorithm.py\<close>.

  \<^item> Python \<^verbatim>\<open>float\<close> values are modelled as \<^typ>\<open>real\<close>: the arithmetic is the
    ideal one, without rounding, infinities or NaN.
  \<^item> Python \<^verbatim>\<open>int\<close> station numbers are \<^typ>\<open>int\<close>; list positions produced by
    \<^verbatim>\<open>range\<close> and \<^verbatim>\<open>enumerate\<close> are \<^typ>\<open>nat\<close>.
  \<^item> A \<^verbatim>\<open>dict\<close> is an association list in insertion order, read with
    \<^const>\<open>map_of\<close>.
  \<^item> A raised exception (\<^verbatim>\<open>KeyError\<close>, \<^verbatim>\<open>IndexError\<close>, \<^verbatim>\<open>ZeroDivisionError\<close>,
    \<^verbatim>\<open>ValueError\<close>) is the result \<^const>\<open>None\<close>.
  \<^item> \<^verbatim>\<open>copy.deepcopy\<close> yields an independent value, so it is the identity on values.
\<close>

subsection \<open>Configuration\<close>

definition WSTATION :: int where
  "WSTATION = 6"

definition SIMULATION_TIME :: real where
  "SIMULATION_TIME = 8"

text \<open>\<^verbatim>\<open>range(1, WSTATION + 1)\<close>\<close>

definition stations :: "int list" where
  "stations = [1..WSTATION]"

subsection \<open>Python containers\<close>

type_synonym worker_id = string
type_synonym ('k, 'v) dict = "('k \<times> 'v) list"
type_synonym assignment = "(int, worker_id list) dict"

text \<open>\<^verbatim>\<open>xs[i]\<close> on a list: a negative index counts from the end, an index out of range raises.\<close>

definition py_index :: "'a list \<Rightarrow> int \<Rightarrow> 'a option" where
  "py_index xs i =
     (let j = (if i < 0 then i + int (length xs) else i)
      in if 0 \<le> j \<and> j < int (length xs) then Some (xs ! nat j) else None)"

text \<open>\<^verbatim>\<open>d[k] = f(d[k])\<close> for a key that must be present (in-place change of the value stored
  under \<open>k\<close>); \<^verbatim>\<open>KeyError\<close> when it is not.\<close>

primrec dict_modify :: "'k \<Rightarrow> ('v \<Rightarrow> 'v) \<Rightarrow> ('k, 'v) dict \<Rightarrow> ('k, 'v) dict option" where
  "dict_modify k f [] = None"
| "dict_modify k f (kv # d) =
     (if fst kv = k then Some ((fst kv, f (snd kv)) # d)
      else map_option ((#) kv) (dict_modify k f d))"

text \<open>\<^verbatim>\<open>d[k] = v\<close>: overwrite in place when the key is present, append a new item otherwise.\<close>

primrec dict_set :: "'k \<Rightarrow> 'v \<Rightarrow> ('k, 'v) dict \<Rightarrow> ('k, 'v) dict" where
  "dict_set k v [] = [(k, v)]"
| "dict_set k v (kv # d) = (if fst kv = k then (k, v) # d else kv # dict_set k v d)"

subsection \<open>Phase 1: profiles\<close>

record TrueWorkerProfile =
  worker_id :: worker_id
  skill1 :: real
  skill2 :: real
  skill3 :: real
  skill4 :: real
  skill5 :: real
  skill6 :: real
  fatigue_base :: real

abbreviation tw_id :: "TrueWorkerProfile \<Rightarrow> worker_id" where
  "tw_id \<equiv> TrueWorkerProfile.worker_id"

definition get_skill :: "TrueWorkerProfile \<Rightarrow> int \<Rightarrow> real option" where
  "get_skill w station =
     py_index [skill1 w, skill2 w, skill3 w, skill4 w, skill5 w, skill6 w] (station - 1)"

text \<open>The float division \<^verbatim>\<open>fatigue_cost / (self.fatigue_base + 5)\<close> raises on a zero divisor;
  in the second branch \<open>k * T \<ge> 0.001\<close>, so that division cannot.\<close>

definition calculate_energy_avg :: "TrueWorkerProfile \<Rightarrow> real \<Rightarrow> real \<Rightarrow> real option" where
  "calculate_energy_avg w fatigue_cost T =
     (if fatigue_base w + 5 = 0 then None
      else let k = fatigue_cost / (fatigue_base w + 5)
           in Some (if k * T < 0.001 then 1 else (1 - exp (- k * T)) / (k * T)))"

text \<open>
  A Python \<^verbatim>\<open>float\<close> is an IEEE double. The model below keeps a finite double as the real number
  it stands for (rounding to the nearest double is not modelled) and writes out the range:
  a quotient, product, sum or exponential whose value reaches \<open>2^1024 - 2^970\<close> in magnitude, the
  bound from which a double rounds to infinity, is infinite. Infinities and \<^verbatim>\<open>nan\<close> follow IEEE
  arithmetic; \<^verbatim>\<open>x / 0.0\<close> raises \<^verbatim>\<open>ZeroDivisionError\<close> and \<^verbatim>\<open>math.exp\<close> raises
  \<^verbatim>\<open>OverflowError\<close> on a finite argument whose exponential is out of range (both \<^const>\<open>None\<close>).
\<close>

datatype pyfloat = Finite real | PosInf | NegInf | NaN

definition double_limit :: real where
  "double_limit = 2 ^ 1024 - 2 ^ 970"

definition to_double :: "real \<Rightarrow> pyfloat" where
  "to_double r =
     (if double_limit \<le> r then PosInf else if r \<le> - double_limit then NegInf else Finite r)"

fun float_neg :: "pyfloat \<Rightarrow> pyfloat" where
  "float_neg (Finite a) = Finite (- a)"
| "float_neg PosInf = NegInf"
| "float_neg NegInf = PosInf"
| "float_neg NaN = NaN"

fun float_add :: "pyfloat \<Rightarrow> pyfloat \<Rightarrow> pyfloat" where
  "float_add (Finite a) (Finite b) = to_double (a + b)"
| "float_add NaN y = NaN"
| "float_add x NaN = NaN"
| "float_add PosInf NegInf = NaN"
| "float_add NegInf PosInf = NaN"
| "float_add PosInf y = PosInf"
| "float_add NegInf y = NegInf"
| "float_add (Finite a) y = y"

definition float_sub :: "pyfloat \<Rightarrow> pyfloat \<Rightarrow> pyfloat" where
  "float_sub x y = float_add x (float_neg y)"

fun float_mul :: "pyfloat \<Rightarrow> pyfloat \<Rightarrow> pyfloat" where
  "float_mul (Finite a) (Finite b) = to_double (a * b)"
| "float_mul NaN y = NaN"
| "float_mul x NaN = NaN"
| "float_mul (Finite a) y = (if a = 0 then NaN else if 0 < a then y else float_neg y)"
| "float_mul x (Finite b) = (if b = 0 then NaN else if 0 < b then x else float_neg x)"
| "float_mul PosInf y = y"
| "float_mul NegInf y = float_neg y"

fun float_truediv :: "pyfloat \<Rightarrow> pyfloat \<Rightarrow> pyfloat option" where
  "float_truediv x (Finite b) =
     (if b = 0 then None
      else Some (case x of
                   Finite a \<Rightarrow> to_double (a / b)
                 | NaN \<Rightarrow> NaN
                 | _ \<Rightarrow> if 0 < b then x else float_neg x))"
| "float_truediv x NaN = Some NaN"
| "float_truediv (Finite a) y = Some (Finite 0)"
| "float_truediv x y = Some NaN"

fun float_less :: "pyfloat \<Rightarrow> pyfloat \<Rightarrow> bool" where
  "float_less (Finite a) (Finite b) \<longleftrightarrow> a < b"
| "float_less NaN y \<longleftrightarrow> False"
| "float_less x NaN \<longleftrightarrow> False"
| "float_less PosInf y \<longleftrightarrow> False"
| "float_less x NegInf \<longleftrightarrow> False"
| "float_less x PosInf \<longleftrightarrow> True"
| "float_less NegInf y \<longleftrightarrow> True"

fun math_exp :: "pyfloat \<Rightarrow> pyfloat option" where
  "math_exp (Finite a) = (if double_limit \<le> exp a then None else Some (Finite (exp a)))"
| "math_exp PosInf = Some PosInf"
| "math_exp NegInf = Some (Finite 0)"
| "math_exp NaN = Some NaN"

text \<open>\<^verbatim>\<open>calculate_energy_avg\<close> once more, with every operation in the range of a double.\<close>

definition calculate_energy_avg_double :: "TrueWorkerProfile \<Rightarrow> real \<Rightarrow> real \<Rightarrow> pyfloat option" where
  "calculate_energy_avg_double w fatigue_cost T =
     do {
       k \<leftarrow> float_truediv (Finite fatigue_cost) (float_add (Finite (fatigue_base w)) (Finite 5));
       if float_less (float_mul k (Finite T)) (Finite 0.001) then Some (Finite 1)
       else
         do {
           e \<leftarrow> math_exp (float_mul (float_neg k) (Finite T));
           float_truediv (float_sub (Finite 1) e) (float_mul k (Finite T))
         }
     }"

definition calculate_performance ::
    "TrueWorkerProfile \<Rightarrow> int \<Rightarrow> real \<Rightarrow> real \<Rightarrow> real option" where
  "calculate_performance w station task_delivery_time task_fatigue_cost =
     do {
       skill \<leftarrow> get_skill w station;
       energy_avg \<leftarrow> calculate_energy_avg w task_fatigue_cost SIMULATION_TIME;
       if task_delivery_time = 0 then None
       else Some ((skill / task_delivery_time) * energy_avg)
     }"

record FactoryWorkerProfile =
  worker_id :: worker_id
  performance_percentages :: "(int, real list) dict"

abbreviation fw_id :: "FactoryWorkerProfile \<Rightarrow> worker_id" where
  "fw_id \<equiv> FactoryWorkerProfile.worker_id"

definition record_performance_percentage ::
    "int \<Rightarrow> real \<Rightarrow> FactoryWorkerProfile \<Rightarrow> FactoryWorkerProfile" where
  "record_performance_percentage station percentage w =
     (let pp = (if map_of (performance_percentages w) station = None
                then dict_set station [] (performance_percentages w)
                else performance_percentages w)
      in w\<lparr>performance_percentages :=
            map (\<lambda>kv. if fst kv = station then (fst kv, snd kv @ [percentage]) else kv) pp\<rparr>)"

definition get_average_percentage :: "FactoryWorkerProfile \<Rightarrow> int \<Rightarrow> real" where
  "get_average_percentage w station =
     (case map_of (performance_percentages w) station of
        None \<Rightarrow> 0
      | Some xs \<Rightarrow> if xs = [] then 0 else sum_list xs / real (length xs))"

definition has_data_for_station :: "FactoryWorkerProfile \<Rightarrow> int \<Rightarrow> bool" where
  "has_data_for_station w station =
     (case map_of (performance_percentages w) station of
        None \<Rightarrow> False
      | Some xs \<Rightarrow> length xs > 0)"

definition get_data_completeness :: "FactoryWorkerProfile \<Rightarrow> real" where
  "get_data_completeness w =
     (real (length (filter (has_data_for_station w) stations)) / real_of_int WSTATION) * 100"

record TaskProfile =
  station_id :: int
  delivery_time :: real
  fatigue_cost :: real

subsection \<open>Initial placement and firing\<close>

text \<open>\<^verbatim>\<open>{station: [] for station in range(1, WSTATION + 1)}\<close>\<close>

definition empty_assignment :: assignment where
  "empty_assignment = map (\<lambda>station. (station, [])) stations"

text \<open>The loop \<^verbatim>\<open>for idx, worker_id in enumerate(worker_ids)\<close> of both
  \<^verbatim>\<open>create_initial_assignment_sequential\<close> and \<^verbatim>\<open>fire_worker_from_assignment\<close>, started at
  index \<open>idx\<close>.\<close>

fun deal_sequential :: "nat \<Rightarrow> worker_id list \<Rightarrow> assignment \<Rightarrow> assignment option" where
  "deal_sequential idx [] a = Some a"
| "deal_sequential idx (w # ws) a =
     do {
       a' \<leftarrow> dict_modify ((int idx mod WSTATION) + 1) (\<lambda>seq. seq @ [w]) a;
       deal_sequential (Suc idx) ws a'
     }"

definition create_initial_assignment_sequential :: "worker_id list \<Rightarrow> assignment option" where
  "create_initial_assignment_sequential worker_ids = deal_sequential 0 worker_ids empty_assignment"

definition fire_worker_from_assignment :: "worker_id \<Rightarrow> assignment \<Rightarrow> assignment option" where
  "fire_worker_from_assignment fired_id assignment =
     do {
       seqs \<leftarrow> those (map (map_of assignment) stations);
       let all_workers = filter (\<lambda>wid. wid \<noteq> fired_id) (concat seqs);
       deal_sequential 0 all_workers empty_assignment
     }"

subsection \<open>Loops and dict comprehensions\<close>

text \<open>\<^verbatim>\<open>for x in xs: body\<close>, where the body updates the loop's state or raises.\<close>

fun for_loop :: "('a \<Rightarrow> 's \<Rightarrow> 's option) \<Rightarrow> 'a list \<Rightarrow> 's \<Rightarrow> 's option" where
  "for_loop body [] s = Some s"
| "for_loop body (x # xs) s = do { s' \<leftarrow> body x s; for_loop body xs s' }"

text \<open>\<^verbatim>\<open>{key(x): x for x in xs}\<close>: a later item with the same key replaces the value and keeps
  the key's place.\<close>

definition dict_from :: "('a \<Rightarrow> 'k) \<Rightarrow> 'a list \<Rightarrow> ('k, 'a) dict" where
  "dict_from key xs = foldl (\<lambda>d x. dict_set (key x) x d) [] xs"

text \<open>\<^verbatim>\<open>max(...)\<close> of a sequence of integers; \<^verbatim>\<open>ValueError\<close> on the empty sequence.\<close>

fun py_max :: "int list \<Rightarrow> int option" where
  "py_max [] = None"
| "py_max (x # xs) = Some (fold max xs x)"

subsection \<open>The learned model as mutable objects\<close>

text \<open>
  The list \<^verbatim>\<open>factory_workers\<close> holds the profile objects; \<^verbatim>\<open>factory_worker_dict\<close> maps an
  id to the last object of the list with that id. A method call on
  \<^verbatim>\<open>factory_worker_dict[wid]\<close> changes that object in place, which the model writes as an
  update of the list at the object's place.
\<close>

definition factory_worker_dict ::
    "FactoryWorkerProfile list \<Rightarrow> (worker_id, FactoryWorkerProfile) dict" where
  "factory_worker_dict fws = dict_from fw_id fws"

primrec update_last :: "('a \<Rightarrow> bool) \<Rightarrow> ('a \<Rightarrow> 'a) \<Rightarrow> 'a list \<Rightarrow> 'a list" where
  "update_last P f [] = []"
| "update_last P f (x # xs) =
     (if list_ex P xs then x # update_last P f xs
      else if P x then f x # xs else x # xs)"

text \<open>\<^verbatim>\<open>factory_worker_dict[wid].record_performance_percentage(station, percentage)\<close>;
  \<^verbatim>\<open>KeyError\<close> when the id has no profile.\<close>

definition record_for ::
    "worker_id \<Rightarrow> int \<Rightarrow> real \<Rightarrow> FactoryWorkerProfile list \<Rightarrow> FactoryWorkerProfile list option" where
  "record_for wid station percentage fws =
     (case map_of (factory_worker_dict fws) wid of
        None \<Rightarrow> None
      | Some _ \<Rightarrow>
          Some (update_last (\<lambda>w. fw_id w = wid)
                  (record_performance_percentage station percentage) fws))"

subsection \<open>Phase 2: environment simulation\<close>

definition add_performance ::
    "(worker_id, TrueWorkerProfile) dict \<Rightarrow> int \<Rightarrow> TaskProfile \<Rightarrow> worker_id \<Rightarrow> real \<Rightarrow> real option" where
  "add_performance true_worker_dict sid task wid total_performance =
     (case map_of true_worker_dict wid of
        None \<Rightarrow> Some total_performance
      | Some true_worker \<Rightarrow>
          do {
            performance \<leftarrow>
              calculate_performance true_worker sid (delivery_time task) (fatigue_cost task);
            Some (total_performance + performance)
          })"

definition simulate_station ::
    "(worker_id, TrueWorkerProfile) dict \<Rightarrow> (int, TaskProfile) dict \<Rightarrow>
     int \<times> worker_id list \<Rightarrow> (int, real) dict \<Rightarrow> (int, real) dict option" where
  "simulate_station true_worker_dict task_dict item station_performance =
     do {
       task \<leftarrow> map_of task_dict (fst item);
       total_performance \<leftarrow>
         for_loop (add_performance true_worker_dict (fst item) task) (snd item) 0;
       Some (dict_set (fst item) total_performance station_performance)
     }"

definition simulate_station_performance ::
    "TrueWorkerProfile list \<Rightarrow> TaskProfile list \<Rightarrow> assignment \<Rightarrow> (int, real) dict option" where
  "simulate_station_performance true_workers tasks assignment =
     for_loop (simulate_station (dict_from tw_id true_workers) (dict_from station_id tasks))
       assignment []"

subsection \<open>Phase 3: rotation, optimisation, gap filling\<close>

text \<open>The workers at position \<open>position_idx\<close>, with their stations, in ascending station order: the
  two parallel lists \<^verbatim>\<open>position_workers\<close> and \<^verbatim>\<open>stations_with_position\<close> (in the collector,
  \<^verbatim>\<open>workers_to_rotate\<close> and \<^verbatim>\<open>source_stations\<close>) as one list of pairs.\<close>

definition cohort_step ::
    "assignment \<Rightarrow> nat \<Rightarrow> int \<Rightarrow> (int \<times> worker_id) list \<Rightarrow> (int \<times> worker_id) list option" where
  "cohort_step assignment position_idx station acc =
     do {
       seq \<leftarrow> map_of assignment station;
       Some (if position_idx < length seq then acc @ [(station, seq ! position_idx)] else acc)
     }"

definition cohort :: "assignment \<Rightarrow> nat \<Rightarrow> (int \<times> worker_id) list option" where
  "cohort assignment position_idx = for_loop (cohort_step assignment position_idx) stations []"

type_synonym best = "worker_id option \<times> real option"

text \<open>The inner loop of \<^verbatim>\<open>optimize_position\<close>; \<^verbatim>\<open>best_score = -float('inf')\<close> is \<^const>\<open>None\<close>.\<close>

definition best_step ::
    "FactoryWorkerProfile list \<Rightarrow> worker_id set \<Rightarrow> int \<Rightarrow> worker_id \<Rightarrow> best \<Rightarrow> best option" where
  "best_step fws assigned_workers station wid b =
     (if wid \<notin> assigned_workers then
        do {
          fw \<leftarrow> map_of (factory_worker_dict fws) wid;
          let score = get_average_percentage fw station;
          Some (if (case snd b of None \<Rightarrow> True | Some best_score \<Rightarrow> score > best_score)
                then (Some wid, Some score) else b)
        }
      else Some b)"

type_synonym details = "(int, worker_id \<times> worker_id \<times> real) dict"

text \<open>The body of \<^verbatim>\<open>for station in stations_with_position\<close>. The test \<^verbatim>\<open>if best_worker:\<close> is
  false for \<^verbatim>\<open>None\<close> and for the empty string.\<close>

definition optimize_station ::
    "FactoryWorkerProfile list \<Rightarrow> nat \<Rightarrow> worker_id list \<Rightarrow> int \<Rightarrow>
     assignment \<times> worker_id set \<times> details \<Rightarrow> (assignment \<times> worker_id set \<times> details) option" where
  "optimize_station fws position_idx position_workers station st =
     (case st of (optimized_assignment, assigned_workers, optimization_details) \<Rightarrow>
        do {
          b \<leftarrow> for_loop (best_step fws assigned_workers station) position_workers (None, None);
          case b of
            (Some best_worker, Some best_score) \<Rightarrow>
              if best_worker \<noteq> [] then
                do {
                  seq \<leftarrow> map_of optimized_assignment station;
                  old_worker \<leftarrow> py_index seq (int position_idx);
                  optimized_assignment' \<leftarrow>
                    dict_modify station (\<lambda>seq. seq[position_idx := best_worker])
                      optimized_assignment;
                  Some (optimized_assignment', insert best_worker assigned_workers,
                        dict_set station (old_worker, best_worker, best_score)
                          optimization_details)
                }
              else Some st
          | _ \<Rightarrow> Some st
        })"

definition optimize_position ::
    "FactoryWorkerProfile list \<Rightarrow> assignment \<Rightarrow> nat \<Rightarrow> (assignment \<times> details) option" where
  "optimize_position fws current_assignment position_idx =
     do {
       c \<leftarrow> cohort current_assignment position_idx;
       if c = [] then Some (current_assignment, [])
       else
         do {
           st \<leftarrow> for_loop (optimize_station fws position_idx (map snd c)) (map fst c)
                   (current_assignment, {}, []);
           Some (fst st, snd (snd st))
         }
     }"

text \<open>\<^verbatim>\<open>check_position_needs_testing\<close> returns from inside its loop, so a later station is not
  read once an earlier one answers.\<close>

fun check_stations ::
    "FactoryWorkerProfile list \<Rightarrow> assignment \<Rightarrow> nat \<Rightarrow> int list \<Rightarrow> bool option" where
  "check_stations fws assignment position_idx [] = Some False"
| "check_stations fws assignment position_idx (station # rest) =
     do {
       seq \<leftarrow> map_of assignment station;
       if position_idx < length seq \<and>
          (case map_of (factory_worker_dict fws) (seq ! position_idx) of
             None \<Rightarrow> False
           | Some fw \<Rightarrow> get_data_completeness fw < 100)
       then Some True
       else check_stations fws assignment position_idx rest
     }"

definition check_position_needs_testing ::
    "FactoryWorkerProfile list \<Rightarrow> assignment \<Rightarrow> nat \<Rightarrow> bool option" where
  "check_position_needs_testing fws assignment position_idx =
     check_stations fws assignment position_idx stations"

text \<open>
  The payloads handed to \<^verbatim>\<open>cycle_callback\<close>, in the order of the calls. A snapshot
  \<^verbatim>\<open>[w.to_dict() for w in factory_workers]\<close> is kept as the list of profiles; a
  \<^verbatim>\<open>performance_comparison\<close> entry is (raw percentage, adjusted percentage, worker).
\<close>

type_synonym comparison = "(int, real \<times> real \<times> worker_id) dict"

datatype event =
    BaseEvent assignment "(int, real) dict" "FactoryWorkerProfile list"
  | SkipEvent nat assignment
  | RotationEvent nat nat nat assignment comparison "FactoryWorkerProfile list"
  | OptimizationEvent nat assignment details "FactoryWorkerProfile list"
  | IncompleteFixEvent worker_id int assignment real "FactoryWorkerProfile list"

text \<open>The base phase: \<^verbatim>\<open>record_performance_percentage(station_id, 100.0)\<close> for every listed
  worker that has a profile.\<close>

definition base_record ::
    "int \<Rightarrow> worker_id \<Rightarrow> FactoryWorkerProfile list \<Rightarrow> FactoryWorkerProfile list option" where
  "base_record sid wid fws =
     (if map_of (factory_worker_dict fws) wid \<noteq> None then record_for wid sid 100 fws
      else Some fws)"

definition base_station ::
    "int \<times> worker_id list \<Rightarrow> FactoryWorkerProfile list \<Rightarrow> FactoryWorkerProfile list option" where
  "base_station item fws = for_loop (base_record (fst item)) (snd item) fws"

definition base_phase ::
    "assignment \<Rightarrow> FactoryWorkerProfile list \<Rightarrow> FactoryWorkerProfile list option" where
  "base_phase initial_assign fws = for_loop base_station initial_assign fws"

text \<open>\<^verbatim>\<open>workers_to_rotate[rotation:] + workers_to_rotate[:rotation]\<close>\<close>

definition rotated :: "nat \<Rightarrow> 'a list \<Rightarrow> 'a list" where
  "rotated rotation workers_to_rotate = drop rotation workers_to_rotate @ take rotation workers_to_rotate"

text \<open>\<^verbatim>\<open>temp_assignment[station][position_idx] = rotated_workers[i]\<close>\<close>

definition place_worker :: "nat \<Rightarrow> int \<times> worker_id \<Rightarrow> assignment \<Rightarrow> assignment option" where
  "place_worker position_idx sw temp_assignment =
     do {
       seq \<leftarrow> map_of temp_assignment (fst sw);
       if position_idx < length seq
       then dict_modify (fst sw) (\<lambda>seq. seq[position_idx := snd sw]) temp_assignment
       else None
     }"

text \<open>The body of \<^verbatim>\<open>for pos, worker_id in enumerate(temp_assignment[station_id])\<close>.\<close>

definition adjustment_step ::
    "FactoryWorkerProfile list \<Rightarrow> assignment \<Rightarrow> int \<Rightarrow> nat \<Rightarrow> nat \<times> worker_id \<Rightarrow> real \<Rightarrow> real option" where
  "adjustment_step fws original_assignment sid position_idx pw adjustment =
     (if fst pw \<noteq> position_idx then
        do {
          orig_seq \<leftarrow> map_of original_assignment sid;
          if fst pw < length orig_seq then
            if snd pw \<noteq> orig_seq ! fst pw then
              do {
                fw \<leftarrow> map_of (factory_worker_dict fws) (snd pw);
                Some (adjustment + (get_average_percentage fw sid - 100))
              }
            else Some adjustment
          else Some adjustment
        }
      else Some adjustment)"

text \<open>The body of \<^verbatim>\<open>for idx, station_id in enumerate(source_stations)\<close> within one rotation;
  \<open>sw\<close> is the station with \<^verbatim>\<open>rotated_workers[idx]\<close>.\<close>

definition record_rotation ::
    "(int, real) dict \<Rightarrow> (int, real) dict \<Rightarrow> assignment \<Rightarrow> assignment \<Rightarrow> nat \<Rightarrow>
     int \<times> worker_id \<Rightarrow> FactoryWorkerProfile list \<times> comparison \<Rightarrow>
     (FactoryWorkerProfile list \<times> comparison) option" where
  "record_rotation base_performance current_performance temp_assignment original_assignment
       position_idx sw st =
     (case st of (fws, performance_comparison) \<Rightarrow>
        do {
          base_perf \<leftarrow> map_of base_performance (fst sw);
          curr_perf \<leftarrow> map_of current_performance (fst sw);
          let raw_percentage = (if base_perf \<noteq> 0 then (curr_perf / base_perf) * 100 else 100);
          fw \<leftarrow> map_of (factory_worker_dict fws) (snd sw);
          if has_data_for_station fw (fst sw) then Some st
          else
            do {
              temp_seq \<leftarrow> map_of temp_assignment (fst sw);
              adjustment \<leftarrow>
                for_loop (adjustment_step fws original_assignment (fst sw) position_idx)
                  (enumerate 0 temp_seq) 0;
              let adjusted_percentage = raw_percentage - adjustment;
              fws' \<leftarrow> record_for (snd sw) (fst sw) adjusted_percentage fws;
              Some (fws', dict_set (fst sw) (raw_percentage, adjusted_percentage, snd sw)
                            performance_comparison)
            }
        })"

text \<open>The state of the collector between two steps: the profile objects, the callback's log and
  the \<^verbatim>\<open>cycle\<close> counter.\<close>

record collector =
  st_workers :: "FactoryWorkerProfile list"
  st_log :: "event list"
  st_cycle :: nat

text \<open>The body of \<^verbatim>\<open>for rotation in range(len(workers_to_rotate))\<close>; \<^verbatim>\<open>temp_assignment\<close> lives
  across the rotations of one position.\<close>

definition rotation_step ::
    "TrueWorkerProfile list \<Rightarrow> TaskProfile list \<Rightarrow> (int, real) dict \<Rightarrow> assignment \<Rightarrow> nat \<Rightarrow>
     (int \<times> worker_id) list \<Rightarrow> nat \<Rightarrow> assignment \<times> collector \<Rightarrow> (assignment \<times> collector) option" where
  "rotation_step true_workers tasks base_performance original_assignment position_idx c rotation ts =
     (case ts of (temp_assignment, st) \<Rightarrow>
        do {
          let rotated_workers = rotated rotation (map snd c);
          let placed = zip (map fst c) rotated_workers;
          temp_assignment' \<leftarrow> for_loop (place_worker position_idx) placed temp_assignment;
          current_performance \<leftarrow>
            simulate_station_performance true_workers tasks temp_assignment';
          (fws', performance_comparison) \<leftarrow>
            for_loop (record_rotation base_performance current_performance temp_assignment'
                        original_assignment position_idx) placed (st_workers st, []);
          Some (temp_assignment',
                st\<lparr>st_workers := fws',
                   st_log := st_log st @
                     [RotationEvent (st_cycle st) position_idx rotation temp_assignment'
                        performance_comparison fws'],
                   st_cycle := st_cycle st + 1\<rparr>)
        })"

text \<open>The body of \<^verbatim>\<open>for position_idx in range(max_workers_per_station)\<close>.\<close>

definition position_step ::
    "TrueWorkerProfile list \<Rightarrow> TaskProfile list \<Rightarrow> (int, real) dict \<Rightarrow> assignment \<Rightarrow> nat \<Rightarrow>
     nat \<Rightarrow> assignment \<times> collector \<Rightarrow> (assignment \<times> collector) option" where
  "position_step true_workers tasks base_performance original_assignment max_workers_per_station
       position_idx cs =
     (case cs of (current_assignment, st) \<Rightarrow>
        do {
          needs \<leftarrow> check_position_needs_testing (st_workers st) original_assignment position_idx;
          if \<not> needs then
            Some (current_assignment,
                  st\<lparr>st_log := st_log st @ [SkipEvent position_idx current_assignment]\<rparr>)
          else
            do {
              c \<leftarrow> cohort original_assignment position_idx;
              if c = [] then Some cs
              else
                do {
                  (temp_assignment, st') \<leftarrow>
                    for_loop (rotation_step true_workers tasks base_performance
                                original_assignment position_idx c)
                      [0..<length c] (current_assignment, st);
                  if int position_idx < int max_workers_per_station - 1 then
                    do {
                      (current_assignment', opt_details) \<leftarrow>
                        optimize_position (st_workers st') current_assignment position_idx;
                      Some (current_assignment',
                            st'\<lparr>st_log := st_log st' @
                                  [OptimizationEvent position_idx current_assignment' opt_details
                                     (st_workers st')]\<rparr>)
                    }
                  else Some (current_assignment, st')
                }
            }
        })"

definition rotation_phase ::
    "TrueWorkerProfile list \<Rightarrow> TaskProfile list \<Rightarrow> (int, real) dict \<Rightarrow> assignment \<Rightarrow>
     collector \<Rightarrow> (assignment \<times> collector) option" where
  "rotation_phase true_workers tasks base_performance initial_assign st =
     do {
       m \<leftarrow> py_max (map (\<lambda>item. int (length (snd item))) initial_assign);
       for_loop (position_step true_workers tasks base_performance initial_assign (nat m))
         [0..<nat m] (initial_assign, st)
     }"

subsection \<open>Gap filler\<close>

text \<open>The search \<^verbatim>\<open>for station_id, worker_ids in current_assignment.items()\<close> that stops at the
  first station listing the worker: the station and \<^verbatim>\<open>worker_ids.index(worker_id)\<close>.\<close>

fun find_current :: "worker_id \<Rightarrow> assignment \<Rightarrow> (int \<times> nat) option" where
  "find_current wid [] = None"
| "find_current wid (item # items) =
     (if wid \<in> set (snd item)
      then Some (fst item, length (takeWhile (\<lambda>w. w \<noteq> wid) (snd item)))
      else find_current wid items)"

text \<open>\<^verbatim>\<open>temp_assignment\<close> of one probe: a copy of \<^verbatim>\<open>current_assignment\<close> with the worker removed
  from its station and put into \<^verbatim>\<open>test_station\<close>. The test \<^verbatim>\<open>if current_station and ...\<close> is
  false for \<^verbatim>\<open>None\<close> and for station \<open>0\<close>.\<close>

definition probe_assignment ::
    "worker_id \<Rightarrow> (int \<times> nat) option \<Rightarrow> int \<Rightarrow> assignment \<Rightarrow> assignment option" where
  "probe_assignment wid cur test_station current_assignment =
     do {
       temp1 \<leftarrow>
         (case cur of
            None \<Rightarrow> Some current_assignment
          | Some (current_station, current_position) \<Rightarrow>
              if current_station \<noteq> 0 then
                do {
                  seq \<leftarrow> map_of current_assignment current_station;
                  if wid \<in> set seq
                  then dict_modify current_station (remove1 wid) current_assignment
                  else Some current_assignment
                }
              else Some current_assignment);
       seq \<leftarrow> map_of temp1 test_station;
       case cur of
         None \<Rightarrow> dict_modify test_station (\<lambda>seq. seq @ [wid]) temp1
       | Some (current_station, current_position) \<Rightarrow>
           if current_position < length seq
           then dict_modify test_station
                  (\<lambda>seq. take current_position seq @ [wid] @ drop current_position seq) temp1
           else dict_modify test_station (\<lambda>seq. seq @ [wid]) temp1
     }"

text \<open>The body of \<^verbatim>\<open>for test_station in missing_stations\<close>.\<close>

definition probe_station ::
    "TrueWorkerProfile list \<Rightarrow> TaskProfile list \<Rightarrow> (int, real) dict \<Rightarrow> assignment \<Rightarrow>
     worker_id \<Rightarrow> (int \<times> nat) option \<Rightarrow> int \<Rightarrow> collector \<Rightarrow> collector option" where
  "probe_station true_workers tasks base_performance current_assignment wid cur test_station st =
     do {
       temp_assignment \<leftarrow> probe_assignment wid cur test_station current_assignment;
       true_worker \<leftarrow> map_of (dict_from tw_id true_workers) wid;
       task \<leftarrow> py_index tasks (test_station - 1);
       individual_performance \<leftarrow>
         calculate_performance true_worker test_station (delivery_time task) (fatigue_cost task);
       base_perf \<leftarrow> map_of base_performance test_station;
       let percentage =
         (if base_perf > 0 then (individual_performance / base_perf) * 100 + 100 else 100);
       fws' \<leftarrow> record_for wid test_station percentage (st_workers st);
       Some (st\<lparr>st_workers := fws',
                st_log := st_log st @
                  [IncompleteFixEvent wid test_station temp_assignment percentage fws']\<rparr>)
     }"

text \<open>The body of \<^verbatim>\<open>for worker_id in workers_to_process\<close>.\<close>

definition process_worker ::
    "TrueWorkerProfile list \<Rightarrow> TaskProfile list \<Rightarrow> (int, real) dict \<Rightarrow> assignment \<Rightarrow>
     worker_id \<Rightarrow> collector \<Rightarrow> collector option" where
  "process_worker true_workers tasks base_performance current_assignment wid st =
     do {
       worker \<leftarrow> map_of (factory_worker_dict (st_workers st)) wid;
       let missing_stations = filter (\<lambda>s. \<not> has_data_for_station worker s) stations;
       let cur = find_current wid current_assignment;
       for_loop (probe_station true_workers tasks base_performance current_assignment wid cur)
         missing_stations st
     }"

definition incomplete_workers :: "FactoryWorkerProfile list \<Rightarrow> worker_id list" where
  "incomplete_workers fws = map fw_id (filter (\<lambda>w. get_data_completeness w < 100) fws)"

definition collect_incomplete_worker_data_ui ::
    "TrueWorkerProfile list \<Rightarrow> TaskProfile list \<Rightarrow> assignment \<Rightarrow> collector \<Rightarrow>
     (assignment \<times> collector) option" where
  "collect_incomplete_worker_data_ui true_workers tasks current_assignment st =
     (let workers_to_process = incomplete_workers (st_workers st) in
      if workers_to_process = [] then Some (current_assignment, st)
      else
        do {
          base_performance \<leftarrow>
            simulate_station_performance true_workers tasks current_assignment;
          st' \<leftarrow>
            for_loop (process_worker true_workers tasks base_performance current_assignment)
              workers_to_process st;
          Some (current_assignment, st')
        })"

subsection \<open>The collector\<close>

text \<open>\<^verbatim>\<open>systematic_data_collection_ui\<close>; the profiles are changed in place, so the final list
  of profiles is returned with the assignment and the callback's log.\<close>

definition systematic_data_collection_ui ::
    "TrueWorkerProfile list \<Rightarrow> FactoryWorkerProfile list \<Rightarrow> TaskProfile list \<Rightarrow> assignment \<Rightarrow>
     (assignment \<times> collector) option" where
  "systematic_data_collection_ui true_workers fws tasks initial_assign =
     do {
       base_performance \<leftarrow> simulate_station_performance true_workers tasks initial_assign;
       fws1 \<leftarrow> base_phase initial_assign fws;
       let st1 = \<lparr>st_workers = fws1,
                  st_log = [BaseEvent initial_assign base_performance fws1],
                  st_cycle = 2\<rparr>;
       (current_assignment, st2) \<leftarrow>
         rotation_phase true_workers tasks base_performance initial_assign st1;
       if incomplete_workers (st_workers st2) \<noteq> []
       then collect_incomplete_worker_data_ui true_workers tasks current_assignment st2
       else Some (current_assignment, st2)
     }"

subsection \<open>Phase 4: the final assignment solver\<close>

type_synonym scores = "(worker_id, (int, real) dict) dict"

definition worker_station_scores :: "FactoryWorkerProfile list \<Rightarrow> scores" where
  "worker_station_scores fws =
     foldl (\<lambda>d worker.
              dict_set (fw_id worker)
                (map (\<lambda>station. (station, get_average_percentage worker station)) stations) d)
       [] fws"

text \<open>\<^verbatim>\<open>worker_station_scores[wid][station]\<close>\<close>

definition score :: "scores \<Rightarrow> worker_id \<Rightarrow> int \<Rightarrow> real option" where
  "score wss wid station = do { row \<leftarrow> map_of wss wid; map_of row station }"

text \<open>\<^verbatim>\<open>sum(worker_station_scores[wid][station] for wid in worker_ids)\<close>\<close>

definition score_total :: "scores \<Rightarrow> int \<Rightarrow> worker_id list \<Rightarrow> real option" where
  "score_total wss station wids =
     map_option sum_list (those (map (\<lambda>wid. score wss wid station) wids))"

definition workers_needed_per_station :: "int \<Rightarrow> (int, int) dict" where
  "workers_needed_per_station num_workers =
     (let base_workers = num_workers div WSTATION;
          extra_workers = num_workers mod WSTATION
      in map (\<lambda>station. (station, base_workers + (if station \<le> extra_workers then 1 else 0)))
           stations)"

text \<open>The body of \<^verbatim>\<open>for station in stations_needing_worker\<close>: the stable descending sort
  \<^verbatim>\<open>available.sort(key=lambda x: x[1], reverse=True)\<close> is the stable ascending sort on the
  negated score.\<close>

definition fill_station ::
    "scores \<Rightarrow> int \<Rightarrow> assignment \<times> worker_id set \<Rightarrow> (assignment \<times> worker_id set) option" where
  "fill_station wss station st =
     (case st of (optimal_assignment, assigned_workers) \<Rightarrow>
        do {
          available \<leftarrow>
            those (map (\<lambda>wid. map_option (Pair wid) (score wss wid station))
                     (filter (\<lambda>wid. wid \<notin> assigned_workers) (map fst wss)));
          case sort_key (\<lambda>x. - snd x) available of
            [] \<Rightarrow> Some st
          | (best_worker_id, best_score) # _ \<Rightarrow>
              do {
                optimal_assignment' \<leftarrow>
                  dict_modify station (\<lambda>seq. seq @ [best_worker_id]) optimal_assignment;
                Some (optimal_assignment', insert best_worker_id assigned_workers)
              }
        })"

text \<open>The body of \<^verbatim>\<open>for position_idx in range(max_workers_any_station)\<close>. The stations that
  still need a worker are sorted (stably) by \<^verbatim>\<open>station_totals[s]\<close>.\<close>

definition fill_round ::
    "scores \<Rightarrow> (int, int) dict \<Rightarrow> nat \<Rightarrow> assignment \<times> worker_id set \<Rightarrow>
     (assignment \<times> worker_id set) option" where
  "fill_round wss needed position_idx st =
     (case st of (optimal_assignment, assigned_workers) \<Rightarrow>
        do {
          station_totals \<leftarrow>
            for_loop (\<lambda>station acc.
                        do {
                          seq \<leftarrow> map_of optimal_assignment station;
                          total \<leftarrow> score_total wss station seq;
                          Some (dict_set station total acc)
                        }) stations [];
          stations_needing_worker \<leftarrow>
            for_loop (\<lambda>s acc.
                        do {
                          seq \<leftarrow> map_of optimal_assignment s;
                          q \<leftarrow> map_of needed s;
                          Some (if int (length seq) < q then acc @ [s] else acc)
                        }) stations [];
          keyed \<leftarrow>
            those (map (\<lambda>s. map_option (Pair s) (map_of station_totals s))
                     stations_needing_worker);
          for_loop (fill_station wss) (map fst (sort_key snd keyed)) st
        })"

record results =
  res_assignment :: assignment
  res_worker_station_scores :: scores
  res_total_performance :: real
  res_average_performance :: real
  res_station_details :: "(int, worker_id list \<times> real \<times> nat) dict"
  res_best_workers :: "(worker_id \<times> int \<times> real) list"
  res_worst_workers :: "(worker_id \<times> int \<times> real) list"

text \<open>The first report loop: running total, running count and \<^verbatim>\<open>station_details\<close>.\<close>

definition report_station ::
    "scores \<Rightarrow> int \<times> worker_id list \<Rightarrow>
     real \<times> nat \<times> (int, worker_id list \<times> real \<times> nat) dict \<Rightarrow>
     (real \<times> nat \<times> (int, worker_id list \<times> real \<times> nat) dict) option" where
  "report_station wss item acc =
     (case acc of (total_expected_performance, total_workers, station_details) \<Rightarrow>
        do {
          station_total \<leftarrow> score_total wss (fst item) (snd item);
          Some (total_expected_performance + station_total,
                total_workers + length (snd item),
                dict_set (fst item) (snd item, station_total, length (snd item)) station_details)
        })"

text \<open>The second report loop: one efficiency entry (worker, station, efficiency) per placed
  worker.\<close>

definition efficiency_station ::
    "scores \<Rightarrow> int \<times> worker_id list \<Rightarrow> (worker_id \<times> int \<times> real) list \<Rightarrow>
     (worker_id \<times> int \<times> real) list option" where
  "efficiency_station wss item worker_efficiencies =
     for_loop (\<lambda>wid acc.
                 do {
                   efficiency \<leftarrow> score wss wid (fst item);
                   Some (acc @ [(wid, fst item, efficiency)])
                 }) (snd item) worker_efficiencies"

text \<open>\<^verbatim>\<open>find_optimal_assignment\<close>: the parameter \<^verbatim>\<open>assignment\<close> is never read.\<close>

definition find_optimal_assignment ::
    "FactoryWorkerProfile list \<Rightarrow> int \<Rightarrow> assignment \<Rightarrow> (assignment \<times> results) option" where
  "find_optimal_assignment fws num_workers assignment =
     (let wss = worker_station_scores fws;
          needed = workers_needed_per_station num_workers
      in do {
           max_workers_any_station \<leftarrow> py_max (map snd needed);
           (optimal_assignment, assigned_workers) \<leftarrow>
             for_loop (fill_round wss needed) [0..<nat max_workers_any_station]
               (empty_assignment, {});
           (total_expected_performance, total_workers, station_details) \<leftarrow>
             for_loop (report_station wss) optimal_assignment (0, 0, []);
           let avg_performance =
             (if total_workers > 0 then total_expected_performance / real total_workers else 0);
           worker_efficiencies \<leftarrow> for_loop (efficiency_station wss) optimal_assignment [];
           let ranked = sort_key (\<lambda>x. - snd (snd x)) worker_efficiencies;
           Some (optimal_assignment,
                 \<lparr>res_assignment = optimal_assignment,
                  res_worker_station_scores = wss,
                  res_total_performance = total_expected_performance,
                  res_average_performance = avg_performance,
                  res_station_details = station_details,
                  res_best_workers = take 3 ranked,
                  res_worst_workers = drop (length ranked - 3) ranked\<rparr>)
         })"

subsection \<open>Auxiliary notions for the properties\<close>

text \<open>The workers that the dealing loop, started at index \<open>idx\<close>, appends to station \<open>s\<close>.\<close>

definition dealt :: "nat \<Rightarrow> worker_id list \<Rightarrow> int \<Rightarrow> worker_id list" where
  "dealt idx ws s = map snd (filter (\<lambda>iw. int (fst iw) mod WSTATION + 1 = s) (enumerate idx ws))"

text \<open>What the inner loop of \<^verbatim>\<open>optimize_position\<close> holds once it has met an unassigned worker of
  the cohort \<open>W\<close>.\<close>

definition good_best :: "worker_id list \<Rightarrow> worker_id set \<Rightarrow> best \<Rightarrow> bool" where
  "good_best W assigned b \<longleftrightarrow>
     (\<exists>w sc. b = (Some w, Some sc) \<and> w \<in> set W \<and> w \<notin> assigned)"

text \<open>The observations a profile holds for a station, and those of the profile that
  \<^verbatim>\<open>factory_worker_dict\<close> gives for an id (none when the id has no profile).\<close>

definition profile_obs :: "FactoryWorkerProfile \<Rightarrow> int \<Rightarrow> real list" where
  "profile_obs w s = (case map_of (performance_percentages w) s of None \<Rightarrow> [] | Some xs \<Rightarrow> xs)"

definition observations :: "FactoryWorkerProfile list \<Rightarrow> worker_id \<Rightarrow> int \<Rightarrow> real list" where
  "observations fws wid s =
     (case map_of (factory_worker_dict fws) wid of None \<Rightarrow> [] | Some w \<Rightarrow> profile_obs w s)"

text \<open>What one probe of the gap filler emits: the callback's payload for worker \<open>wid\<close> and
  station \<open>s\<close>, given the base performance \<open>bp\<close> and the assignment \<open>a\<close> the gap filler was
  called with.\<close>

definition probe_event ::
    "TrueWorkerProfile list \<Rightarrow> TaskProfile list \<Rightarrow> (int, real) dict \<Rightarrow> assignment \<Rightarrow> event \<Rightarrow> bool" where
  "probe_event tws tasks bp a e \<longleftrightarrow>
     (\<exists>wid s temp pct snap tw task ind base.
        e = IncompleteFixEvent wid s temp pct snap \<and>
        probe_assignment wid (find_current wid a) s a = Some temp \<and>
        map_of (dict_from tw_id tws) wid = Some tw \<and>
        py_index tasks (s - 1) = Some task \<and>
        calculate_performance tw s (delivery_time task) (fatigue_cost task) = Some ind \<and>
        map_of bp s = Some base \<and>
        pct = (if base > 0 then ind / base * 100 + 100 else 100) \<and>
        observations snap wid s \<noteq> [] \<and> last (observations snap wid s) = pct)"

subsection \<open>Example data\<close>

text \<open>Six tasks with delivery time \<open>2\<close> and fatigue cost \<open>0\<close> (so that the energy average is \<open>1\<close>),
  and two workers.\<close>

definition example_tasks :: "TaskProfile list" where
  "example_tasks = map (\<lambda>s. \<lparr>station_id = s, delivery_time = 2, fatigue_cost = 0\<rparr>) [1, 2, 3, 4, 5, 6]"

definition example_true_worker :: "worker_id \<Rightarrow> real \<Rightarrow> TrueWorkerProfile" where
  "example_true_worker wid skill =
     \<lparr>TrueWorkerProfile.worker_id = wid, skill1 = skill, skill2 = skill, skill3 = skill, skill4 = skill,
      skill5 = skill, skill6 = skill, fatigue_base = 5\<rparr>"

definition example_assignment :: assignment where
  "example_assignment = [(1, [''0001'']), (2, [''0002'']), (3, []), (4, []), (5, []), (6, [])]"

text \<open>Worker 0001 holds an observation for every station, worker 0002 for every station but the
  first.\<close>

definition example_learned :: "FactoryWorkerProfile list" where
  "example_learned =
     [\<lparr>worker_id = ''0001'',
       performance_percentages = map (\<lambda>s. (s, [100])) [1, 2, 3, 4, 5, 6]\<rparr>,
      \<lparr>worker_id = ''0002'',
       performance_percentages = map (\<lambda>s. (s, [100])) [2, 3, 4, 5, 6]\<rparr>]"

subsection \<open>The rotation phase's formula in the specification's words\<close>

text \<open>Two assignments with the same stations and the same sequence lengths.\<close>

definition same_shape :: "assignment \<Rightarrow> assignment \<Rightarrow> bool" where
  "same_shape a a' \<longleftrightarrow>
     map fst a' = map fst a \<and> (\<forall>s. map_option length (map_of a' s) = map_option length (map_of a s))"

text \<open>The learned average percentage of a worker for a station.\<close>

definition learned_average :: "FactoryWorkerProfile list \<Rightarrow> worker_id \<Rightarrow> int \<Rightarrow> real" where
  "learned_average fws w s =
     (case map_of (factory_worker_dict fws) w of None \<Rightarrow> 0 | Some fw \<Rightarrow> get_average_percentage fw s)"

text \<open>The specification's raw percentage: current total over base total, times \<open>100\<close>, or \<open>100\<close>
  if the base is zero.\<close>

definition spec_raw_percentage :: "real \<Rightarrow> real \<Rightarrow> real" where
  "spec_raw_percentage current base = (if base = 0 then 100 else current / base * 100)"

text \<open>The specification's adjustment for station \<open>s\<close> and probed position \<open>p\<close>: the sum, over the
  positions \<open>q \<noteq> p\<close> of the station's sequence in the temporary assignment whose occupant differs
  from the occupant of \<open>q\<close> in the original assignment, of the occupant's learned average for \<open>s\<close>
  minus \<open>100\<close>.\<close>

definition spec_adjustment ::
    "FactoryWorkerProfile list \<Rightarrow> worker_id list \<Rightarrow> worker_id list \<Rightarrow> int \<Rightarrow> nat \<Rightarrow> real" where
  "spec_adjustment fws temp_seq orig_seq s p =
     (\<Sum>q\<leftarrow>[0..<length temp_seq].
        if q \<noteq> p \<and> temp_seq ! q \<noteq> orig_seq ! q
        then learned_average fws (temp_seq ! q) s - 100 else 0)"

text \<open>The snapshot of the learned model that an event carries
  (\<^verbatim>\<open>[w.to_dict() for w in factory_workers]\<close> at the time of the callback); the event of a
  skipped position carries none.\<close>

fun event_snapshot :: "event \<Rightarrow> FactoryWorkerProfile list option" where
  "event_snapshot (BaseEvent a bp snap) = Some snap"
| "event_snapshot (SkipEvent p a) = None"
| "event_snapshot (RotationEvent cycle p r temp entries snap) = Some snap"
| "event_snapshot (OptimizationEvent p a det snap) = Some snap"
| "event_snapshot (IncompleteFixEvent wid s temp pct snap) = Some snap"

text \<open>The learned model at the end of a log: the last snapshot in it.\<close>

fun latest_snapshot :: "event list \<Rightarrow> FactoryWorkerProfile list option" where
  "latest_snapshot [] = None"
| "latest_snapshot (e # es) =
     (case latest_snapshot es of Some snap \<Rightarrow> Some snap | None \<Rightarrow> event_snapshot e)"

text \<open>An entry (station \<open>s\<close>, raw percentage, adjusted percentage, worker \<open>w\<close>) of the comparison
  of a rotation event, for the temporary assignment \<open>temp\<close> and position \<open>p\<close> of the event, the
  learned model \<open>model\<close> the collector holds when the rotation round starts and the snapshot
  \<open>snap\<close> the event carries: the two percentages follow the specification's formulas, with the
  learned averages read from \<open>model\<close>; the pair has no observation in \<open>model\<close>, and the adjusted
  percentage is its one observation in \<open>snap\<close>.\<close>

definition rotation_entry ::
    "TrueWorkerProfile list \<Rightarrow> TaskProfile list \<Rightarrow> (int, real) dict \<Rightarrow> assignment \<Rightarrow>
     FactoryWorkerProfile list \<Rightarrow> FactoryWorkerProfile list \<Rightarrow> assignment \<Rightarrow>
     nat \<Rightarrow> int \<times> real \<times> real \<times> worker_id \<Rightarrow> bool" where
  "rotation_entry tws tasks bp orig model snap temp p entry \<longleftrightarrow>
     (case entry of (s, raw, adjusted, w) \<Rightarrow>
        \<exists>cp base current temp_seq orig_seq.
          simulate_station_performance tws tasks temp = Some cp \<and>
          map_of bp s = Some base \<and> map_of cp s = Some current \<and>
          map_of temp s = Some temp_seq \<and> map_of orig s = Some orig_seq \<and>
          length temp_seq = length orig_seq \<and> p < length temp_seq \<and> temp_seq ! p = w \<and>
          raw = spec_raw_percentage current base \<and>
          adjusted = raw - spec_adjustment model temp_seq orig_seq s p \<and>
          observations model w s = [] \<and> observations snap w s = [adjusted])"

text \<open>An event that follows the log \<open>before\<close>: if it is a rotation event, the log holds a
  snapshot, and every entry of the event's comparison is as above for the last one.\<close>

definition rotation_event_ok ::
    "TrueWorkerProfile list \<Rightarrow> TaskProfile list \<Rightarrow> (int, real) dict \<Rightarrow> assignment \<Rightarrow>
     event list \<Rightarrow> event \<Rightarrow> bool" where
  "rotation_event_ok tws tasks bp orig before e \<longleftrightarrow>
     (case e of
        RotationEvent cycle p r temp entries snap \<Rightarrow>
          \<exists>model. latest_snapshot before = Some model \<and>
            list_all (rotation_entry tws tasks bp orig model snap temp p) entries
      | _ \<Rightarrow> True)"

definition rotation_log_ok ::
    "TrueWorkerProfile list \<Rightarrow> TaskProfile list \<Rightarrow> (int, real) dict \<Rightarrow> assignment \<Rightarrow>
     event list \<Rightarrow> bool" where
  "rotation_log_ok tws tasks bp orig events \<longleftrightarrow>
     (\<forall>before e after.
        events = before @ e # after \<longrightarrow> rotation_event_ok tws tasks bp orig before e)"

text \<open>The log of a collector state is as above, and its last snapshot is the state's learned
  model.\<close>

definition collector_log_ok ::
    "TrueWorkerProfile list \<Rightarrow> TaskProfile list \<Rightarrow> (int, real) dict \<Rightarrow> assignment \<Rightarrow>
     collector \<Rightarrow> bool" where
  "collector_log_ok tws tasks bp orig st \<longleftrightarrow>
     rotation_log_ok tws tasks bp orig (st_log st) \<and>
     latest_snapshot (st_log st) = Some (st_workers st)"

text \<open>Four workers, two at station \<open>1\<close> and two at station \<open>2\<close>.\<close>

definition example_assignment4 :: assignment where
  "example_assignment4 =
     [(1, [''0001'', ''0002'']), (2, [''0003'', ''0004'']), (3, []), (4, []), (5, []), (6, [])]"

definition example_true_workers4 :: "TrueWorkerProfile list" where
  "example_true_workers4 =
     [example_true_worker ''0001'' 4, example_true_worker ''0002'' 4,
      example_true_worker ''0003'' 6, example_true_worker ''0004'' 6]"

definition example_factory_workers4 :: "FactoryWorkerProfile list" where
  "example_factory_workers4 =
     map (\<lambda>wid. \<lparr>worker_id = wid, performance_percentages = []\<rparr>)
       [''0001'', ''0002'', ''0003'', ''0004'']"

subsection \<open>Counting observations\<close>

text \<open>How often the base phase meets worker \<open>w\<close> in the sequence of station \<open>s\<close>.\<close>

definition base_count :: "assignment \<Rightarrow> worker_id \<Rightarrow> int \<Rightarrow> nat" where
  "base_count a w s = (\<Sum>item\<leftarrow>a. if fst item = s then count_list (snd item) w else 0)"

text \<open>The learned model \<open>fws'\<close> holds, for every worker and station, what \<open>fws\<close> holds, or one
  observation where \<open>fws\<close> holds none.\<close>

definition at_most_one_more :: "FactoryWorkerProfile list \<Rightarrow> FactoryWorkerProfile list \<Rightarrow> bool" where
  "at_most_one_more fws fws' \<longleftrightarrow>
     map fw_id fws' = map fw_id fws \<and>
     (\<forall>w s. observations fws' w s = observations fws w s \<or>
            (observations fws w s = [] \<and> length (observations fws' w s) = 1))"

text \<open>Every worker listed in the assignment has a profile.\<close>

definition registered :: "FactoryWorkerProfile list \<Rightarrow> assignment \<Rightarrow> bool" where
  "registered fws a \<longleftrightarrow> set (concat (map snd a)) \<subseteq> fw_id ` set fws"

text \<open>The environment in which the oracle cannot divide by zero: a task for every station, six
  tasks at least, no zero delivery time, no fatigue base of \<open>-5\<close>.\<close>

definition oracle_defined :: "TrueWorkerProfile list \<Rightarrow> TaskProfile list \<Rightarrow> bool" where
  "oracle_defined tws tasks \<longleftrightarrow>
     set stations \<subseteq> station_id ` set tasks \<and> 6 \<le> length tasks \<and>
     (\<forall>t\<in>set tasks. delivery_time t \<noteq> 0) \<and> (\<forall>tw\<in>set tws. fatigue_base tw + 5 \<noteq> 0)"

text \<open>What the collector keeps between its steps, for the original assignment \<open>orig\<close> and the
  learned model \<open>f0\<close> left by the base phase: the working assignment has the original's shape and
  lists workers with profiles only, and the learned model holds at most one observation more
  than \<open>f0\<close> for a pair, and only where \<open>f0\<close> holds none.\<close>

definition collector_inv ::
    "assignment \<Rightarrow> FactoryWorkerProfile list \<Rightarrow> assignment \<Rightarrow> collector \<Rightarrow> bool" where
  "collector_inv orig f0 a st \<longleftrightarrow>
     same_shape orig a \<and> registered f0 a \<and> at_most_one_more f0 (st_workers st)"

text \<open>The fixed surroundings of the rotation phase: a defined oracle, an original assignment over
  the six stations whose workers have profiles, and a base performance for every station.\<close>

definition collector_env ::
    "TrueWorkerProfile list \<Rightarrow> TaskProfile list \<Rightarrow> (int, real) dict \<Rightarrow> assignment \<Rightarrow>
     FactoryWorkerProfile list \<Rightarrow> bool" where
  "collector_env tws tasks bp orig f0 \<longleftrightarrow>
     oracle_defined tws tasks \<and> map fst orig = stations \<and> registered f0 orig \<and>
     (\<forall>s\<in>set stations. map_of bp s \<noteq> None)"

text \<open>The learned model of the two example workers after one run of the collector over
  \<^const>\<open>example_assignment\<close>: one observation for every station.\<close>

definition example_collected :: "FactoryWorkerProfile list" where
  "example_collected =
     [\<lparr>worker_id = ''0001'',
       performance_percentages =
         [(1, [100]), (2, [200 / 3]), (3, [100]), (4, [100]), (5, [100]), (6, [100])]\<rparr>,
      \<lparr>worker_id = ''0002'',
       performance_percentages =
         [(2, [100]), (1, [150]), (3, [100]), (4, [100]), (5, [100]), (6, [100])]\<rparr>]"



section \<open>Properties\<close>

subsection \<open>Containers\<close>

lemma stations_eq: "stations = [1, 2, 3, 4, 5, 6]"
  by (simp add: stations_def WSTATION_def upto.simps)

lemma dict_modify_Some:
  assumes "k \<in> fst ` set d"
  shows "\<exists>d'. dict_modify k f d = Some d' \<and> map fst d' = map fst d \<and>
           map_of d' = (map_of d)(k \<mapsto> f (the (map_of d k)))"
  using assms
proof (induction d)
  case Nil
  then show ?case by simp
next
  case (Cons kv d)
  show ?case
  proof (cases "fst kv = k")
    case True
    then show ?thesis by (cases kv) (auto simp: fun_eq_iff)
  next
    case False
    with Cons.prems have "k \<in> fst ` set d" by auto
    from Cons.IH[OF this] obtain d' where d': "dict_modify k f d = Some d'"
      "map fst d' = map fst d" "map_of d' = (map_of d)(k \<mapsto> f (the (map_of d k)))" by blast
    with False show ?thesis by (cases kv) (auto simp: fun_eq_iff)
  qed
qed

subsection \<open>Energy average\<close>

lemma energy_formula_pos: "0 < (x::real) \<Longrightarrow> 0 < (1 - exp (- x)) / x"
  by simp

lemma energy_formula_less_one:
  fixes x :: real
  assumes "0 < x"
  shows "(1 - exp (- x)) / x < 1"
proof -
  have "1 + (- x) \<le> exp (- x)"
    by (rule exp_ge_add_one_self)
  moreover have "1 + (- x) \<noteq> exp (- x)"
  proof
    assume e: "1 + (- x) = exp (- x)"
    then have "ln (exp (- x)) = exp (- x) - 1" by simp
    then have "exp (- x) = 1" by (rule ln_eq_minus_one[rotated]) simp
    then show False using assms by simp
  qed
  ultimately have "1 - x < exp (- x)" by simp
  then have "1 - exp (- x) < x" by simp
  then show ?thesis using assms by simp
qed


lemma energy_value:
  assumes "fatigue_base w > - 5"
  shows "calculate_energy_avg w fc T =
    Some (if fc / (fatigue_base w + 5) * T < 0.001 then 1
          else (1 - exp (- (fc / (fatigue_base w + 5) * T))) / (fc / (fatigue_base w + 5) * T))"
  using assms by (simp add: calculate_energy_avg_def Let_def)

subsection \<open>Round-robin dealing\<close>

lemma deal_sequential_Some:
  assumes "set stations \<subseteq> fst ` set a"
  shows "\<exists>a'. deal_sequential idx ws a = Some a' \<and> map fst a' = map fst a \<and>
           (\<forall>s. map_of a' s = map_option (\<lambda>seq. seq @ dealt idx ws s) (map_of a s))"
  using assms
proof (induction ws arbitrary: idx a)
  case Nil
  then show ?case by (simp add: dealt_def option.map_ident)
next
  case (Cons w ws)
  let ?k = "int idx mod WSTATION + 1"
  have "?k \<in> set stations" by (simp add: stations_def WSTATION_def)
  with Cons.prems have "?k \<in> fst ` set a" by blast
  from dict_modify_Some[OF this, of "\<lambda>seq. seq @ [w]"] obtain a1 where a1:
    "dict_modify ?k (\<lambda>seq. seq @ [w]) a = Some a1" "map fst a1 = map fst a"
    "map_of a1 = (map_of a)(?k \<mapsto> the (map_of a ?k) @ [w])" by blast
  have "set stations \<subseteq> fst ` set a1"
    using Cons.prems a1(2) by (metis list.set_map)
  from Cons.IH[OF this, of "Suc idx"] obtain a' where a':
    "deal_sequential (Suc idx) ws a1 = Some a'" "map fst a' = map fst a1"
    "\<forall>s. map_of a' s = map_option (\<lambda>seq. seq @ dealt (Suc idx) ws s) (map_of a1 s)" by blast
  have "map_of a' s = map_option (\<lambda>seq. seq @ dealt idx (w # ws) s) (map_of a s)" for s
  proof (cases "s = ?k")
    case True
    from \<open>?k \<in> fst ` set a\<close> obtain seq where "map_of a ?k = Some seq"
      by (metis domIff dom_map_of_conv_image_fst not_Some_eq)
    then show ?thesis using a'(3) a1(3) True by (simp add: dealt_def)
  next
    case False
    then show ?thesis using a'(3) a1(3) by (simp add: dealt_def)
  qed
  then show ?case using a1 a' by simp
qed

lemma lookup_empty_assignment:
  "map_of empty_assignment s = (if s \<in> set stations then Some [] else None)"
  by (simp add: empty_assignment_def map_of_map_restrict restrict_map_def)

lemma int_mod6_eq: "(int n mod WSTATION = int r) = (n mod 6 = r)"
proof -
  have "int n mod 6 = int (n mod 6)" by (simp add: zmod_int)
  then show ?thesis by (simp add: WSTATION_def)
qed

lemma div6_eq: "r < 6 \<Longrightarrow> (6 * q + r) div 6 = q"
  for q r :: nat
  by simp

lemma div6_hit:
  fixes n r :: nat
  assumes "n mod 6 = r"
  shows "(Suc n + 5 - r) div 6 = Suc ((n + 5 - r) div 6)"
proof -
  define q where "q = n div 6"
  have n: "n = 6 * q + r" and r: "r < 6"
    using assms by (auto simp: q_def)
  have "Suc n + 5 - r = 6 * Suc q + 0" "n + 5 - r = 6 * q + 5"
    using n by simp_all
  then show ?thesis by (simp only: div6_eq)
qed

lemma div6_hit_idx:
  fixes n r :: nat
  assumes "n mod 6 = r"
  shows "6 * ((n + 5 - r) div 6) + r = n"
proof -
  define q where "q = n div 6"
  have n: "n = 6 * q + r" and r: "r < 6"
    using assms by (auto simp: q_def)
  have "n + 5 - r = 6 * q + 5"
    using n by simp
  then show ?thesis using n by (simp only: div6_eq)
qed

lemma div6_miss:
  fixes n r :: nat
  assumes "r < 6" "n mod 6 \<noteq> r"
  shows "(Suc n + 5 - r) div 6 = (n + 5 - r) div 6"
proof -
  define q where "q = n div 6"
  define r' where "r' = n mod 6"
  have n: "n = 6 * q + r'" and r': "r' < 6" "r' = n mod 6"
    by (simp_all add: q_def r'_def)
  from r'(2) assms(2) have ne: "r' \<noteq> r" by simp
  show ?thesis
  proof (cases "r' < r")
    case True
    then have "Suc n + 5 - r = 6 * q + (r' + 6 - r)" "r' + 6 - r < 6"
      "n + 5 - r = 6 * q + (r' + 5 - r)" "r' + 5 - r < 6"
      using n assms(1) by simp_all
    then show ?thesis by (simp only: div6_eq)
  next
    case False
    with ne have "r < r'" by simp
    then have "Suc n + 5 - r = 6 * Suc q + (r' - r)" "r' - r < 6"
      "n + 5 - r = 6 * Suc q + (r' - r - 1)" "r' - r - 1 < 6"
      using n r'(1) by simp_all
    then show ?thesis by (simp only: div6_eq)
  qed
qed

lemma div6_bound:
  fixes n r j :: nat
  assumes "r < 6" "j < (n + 5 - r) div 6"
  shows "6 * j + r < n"
proof -
  from assms(2) have "Suc j \<le> (n + 5 - r) div 6" by simp
  then have "6 * Suc j \<le> 6 * ((n + 5 - r) div 6)" by simp
  also have "\<dots> \<le> n + 5 - r" by simp
  finally show ?thesis using assms(1) by simp
qed

lemma div6_pos:
  fixes n i :: nat
  assumes "i < n"
  shows "i div 6 < (n + 5 - i mod 6) div 6"
proof -
  define q where "q = i div 6"
  define r where "r = i mod 6"
  have "6 * q + r = i" "r < 6"
    by (simp_all add: q_def r_def)
  with assms have "6 * Suc q \<le> n + 5 - r"
    by simp
  then have "6 * Suc q div 6 \<le> (n + 5 - r) div 6"
    by (rule div_le_mono)
  then show ?thesis by (simp add: q_def r_def)
qed

lemma div6_small: "r < 6 \<Longrightarrow> n \<le> 6 \<Longrightarrow> (n + 5 - r) div 6 = (if r < n then 1 else 0)"
  for n r :: nat
proof (cases "r < n")
  case True
  assume "r < 6" "n \<le> 6"
  with True have "n + 5 - r = 6 * 1 + (n - r - 1)" "n - r - 1 < 6" by simp_all
  then have "(n + 5 - r) div 6 = 1"
    by (simp only: div6_eq)
  with True show ?thesis by simp
next
  case False
  assume "r < 6" "n \<le> 6"
  with False have "n + 5 - r < 6" by simp
  with False show ?thesis by simp
qed


lemma dealt_closed:
  assumes "r < 6"
  shows "dealt 0 ws (int r + 1) = map (\<lambda>j. ws ! (6 * j + r)) [0..<(length ws + 5 - r) div 6]"
proof (induction ws rule: rev_induct)
  case Nil
  then show ?case using assms by (simp add: dealt_def)
next
  case (snoc w ws)
  let ?n = "length ws"
  let ?m = "(?n + 5 - r) div 6"
  have en: "enumerate 0 (ws @ [w]) = enumerate 0 ws @ [(?n, w)]"
    by (simp add: enumerate_append_eq)
  have old: "map (\<lambda>j. (ws @ [w]) ! (6 * j + r)) [0..<?m] = map (\<lambda>j. ws ! (6 * j + r)) [0..<?m]"
  proof (rule map_cong[OF refl])
    fix j assume "j \<in> set [0..<?m]"
    then have "6 * j + r < ?n" using div6_bound[OF assms, of j ?n] by simp
    then show "(ws @ [w]) ! (6 * j + r) = ws ! (6 * j + r)"
      by (simp add: nth_append)
  qed
  show ?case
  proof (cases "?n mod 6 = r")
    case True
    have m: "(length (ws @ [w]) + 5 - r) div 6 = Suc ?m" using div6_hit[OF True] by simp
    show ?thesis
      unfolding m using snoc.IH old True en div6_hit_idx[OF True]
      by (simp add: dealt_def int_mod6_eq)
  next
    case False
    have m: "(length (ws @ [w]) + 5 - r) div 6 = ?m" using div6_miss[OF assms False] by simp
    show ?thesis
      unfolding m using snoc.IH old False en
      by (simp add: dealt_def int_mod6_eq)
  qed
qed

lemma those_map_Some:
  "(\<And>x. x \<in> set xs \<Longrightarrow> f x = Some (g x)) \<Longrightarrow> those (map f xs) = Some (map g xs)"
  by (induction xs) auto

lemma dict_modify_append_mset:
  "dict_modify k (\<lambda>seq. seq @ [w]) d = Some d' \<Longrightarrow>
     mset (concat (map snd d')) = add_mset w (mset (concat (map snd d)))"
  by (induction d arbitrary: d') (auto split: if_splits)

lemma deal_sequential_mset:
  "deal_sequential idx ws a = Some a' \<Longrightarrow>
     mset (concat (map snd a')) = mset (concat (map snd a)) + mset ws"
proof (induction ws arbitrary: idx a)
  case Nil
  then show ?case by simp
next
  case (Cons w ws)
  from Cons.prems obtain a1 where a1:
    "dict_modify (int idx mod WSTATION + 1) (\<lambda>seq. seq @ [w]) a = Some a1"
    "deal_sequential (Suc idx) ws a1 = Some a'"
    by (auto simp: bind_eq_Some_conv)
  show ?case
    using Cons.IH[OF a1(2)] dict_modify_append_mset[OF a1(1)] by simp
qed

lemma concat_empty_assignment: "concat (map snd empty_assignment) = []"
  by (simp add: empty_assignment_def)

lemma deal_empty_lookup:
  "\<exists>a. deal_sequential 0 ws empty_assignment = Some a \<and> map fst a = stations \<and>
       (\<forall>r<6. map_of a (int r + 1) =
                Some (map (\<lambda>j. ws ! (6 * j + r)) [0..<(length ws + 5 - r) div 6]))"
proof -
  have keys: "set stations \<subseteq> fst ` set empty_assignment"
    by (force simp: empty_assignment_def)
  from deal_sequential_Some[OF keys, of 0 ws] obtain a where a:
    "deal_sequential 0 ws empty_assignment = Some a" "map fst a = map fst empty_assignment"
    "\<forall>s. map_of a s = map_option (\<lambda>seq. seq @ dealt 0 ws s) (map_of empty_assignment s)"
    by blast
  have "map_of a (int r + 1) = Some (map (\<lambda>j. ws ! (6 * j + r)) [0..<(length ws + 5 - r) div 6])"
    if "r < 6" for r
  proof -
    have "int r + 1 \<in> set stations" using that by (simp add: stations_def WSTATION_def)
    then show ?thesis
      using a(3) dealt_closed[OF that, of ws] by (simp add: lookup_empty_assignment)
  qed
  moreover have "map fst a = stations"
    using a(2) by (simp add: empty_assignment_def comp_def)
  ultimately show ?thesis
    using a(1) by auto
qed

text \<open>An assignment whose keys are the stations in order is the list of its six sequences.\<close>

lemma assignment_by_stations:
  assumes "map fst a = stations"
  shows "map snd a = map (\<lambda>r. the (map_of a (int r + 1))) [0..<6]"
proof -
  from assms obtain v1 v2 v3 v4 v5 v6 where
    a: "a = [(1, v1), (2, v2), (3, v3), (4, v4), (5, v5), (6, v6)]"
    unfolding stations_eq by (auto simp: map_eq_Cons_conv)
  have "[0..<6] = [0, 1, 2, 3, 4, 5::nat]" by (simp add: upt_rec)
  then show ?thesis by (simp add: a)
qed

lemma concat_first:
  assumes "length ws \<le> 6"
  shows "concat (map (\<lambda>r. map (\<lambda>j. ws ! (6 * j + r)) [0..<(if r < length ws then 1 else 0)]) [0..<6]) = ws"
proof -
  have split: "[0..<6] = [0..<length ws] @ [length ws..<6]"
    using assms upt_add_eq_append[of 0 "length ws" "6 - length ws"] by simp
  have eq: "map (\<lambda>r. map (\<lambda>j. ws ! (6 * j + r)) [0..<(if r < length ws then 1 else 0)]) [0..<length ws] = map (\<lambda>r. [ws ! r]) [0..<length ws]"
    by (rule map_cong) auto
  have a: "concat (map (\<lambda>r. map (\<lambda>j. ws ! (6 * j + r)) [0..<(if r < length ws then 1 else 0)]) [0..<length ws]) = map (\<lambda>r. ws ! r) [0..<length ws]"
    unfolding eq by simp
  have b: "concat (map (\<lambda>r. map (\<lambda>j. ws ! (6 * j + r)) [0..<(if r < length ws then 1 else 0)]) [length ws..<6]) = []"
    by simp
  show ?thesis unfolding split map_append concat_append a b by (simp add: map_nth)
qed

lemma round_robin_properties:
  assumes a: "map fst a = stations"
    and look: "\<forall>r<6. map_of a (int r + 1) =
                Some (map (\<lambda>j. ws ! (6 * j + r)) [0..<(length ws + 5 - r) div 6])"
  shows "(\<forall>s\<in>set stations. \<forall>t\<in>set stations.
            length (the (map_of a s)) \<le> length (the (map_of a t)) + 1)"
    and "(\<forall>i<length ws. i div 6 < length (the (map_of a (int (i mod 6) + 1))) \<and>
            the (map_of a (int (i mod 6) + 1)) ! (i div 6) = ws ! i)"
    and "length ws \<le> 6 \<longrightarrow> concat (map snd a) = ws"
proof -
  have st: "\<exists>r<6. s = int r + 1" if "s \<in> set stations" for s
    using that unfolding stations_eq
    by (auto intro: exI[of _ 0] exI[of _ 1] exI[of _ 2] exI[of _ 3] exI[of _ 4] exI[of _ 5])
  show "\<forall>s\<in>set stations. \<forall>t\<in>set stations.
            length (the (map_of a s)) \<le> length (the (map_of a t)) + 1"
  proof (intro ballI)
    fix s t assume "s \<in> set stations" "t \<in> set stations"
    then obtain r r' where "r < 6" "s = int r + 1" "r' < 6" "t = int r' + 1"
      using st by blast
    then show "length (the (map_of a s)) \<le> length (the (map_of a t)) + 1"
      using look by simp
  qed
  show "\<forall>i<length ws. i div 6 < length (the (map_of a (int (i mod 6) + 1))) \<and>
            the (map_of a (int (i mod 6) + 1)) ! (i div 6) = ws ! i"
  proof (intro allI impI)
    fix i assume i: "i < length ws"
    have r: "i mod 6 < 6" by simp
    have l: "map_of a (int (i mod 6) + 1) =
        Some (map (\<lambda>j. ws ! (6 * j + i mod 6)) [0..<(length ws + 5 - i mod 6) div 6])"
      using look r by blast
    show "i div 6 < length (the (map_of a (int (i mod 6) + 1))) \<and>
            the (map_of a (int (i mod 6) + 1)) ! (i div 6) = ws ! i"
      using div6_pos[OF i] by (simp add: l)
  qed
  show "length ws \<le> 6 \<longrightarrow> concat (map snd a) = ws"
  proof
    assume n: "length ws \<le> 6"
    have eq: "map (\<lambda>r. the (map_of a (int r + 1))) [0..<6] =
          map (\<lambda>r. map (\<lambda>j. ws ! (6 * j + r)) [0..<(if r < length ws then 1 else 0)]) [0..<6]"
      by (rule map_cong[OF refl]) (use look n in \<open>simp add: div6_small\<close>)
    show "concat (map snd a) = ws"
      unfolding assignment_by_stations[OF a] eq by (rule concat_first[OF n])
  qed
qed

lemma those_lookup_stations:
  assumes "map fst a = stations"
  shows "those (map (map_of a) stations) = Some (map snd a)"
proof -
  from assms obtain v1 v2 v3 v4 v5 v6 where
    a: "a = [(1, v1), (2, v2), (3, v3), (4, v4), (5, v5), (6, v6)]"
    unfolding stations_eq by (auto simp: map_eq_Cons_conv)
  show ?thesis by (simp add: a stations_eq)
qed

lemma fire_is_deal:
  assumes "map fst asg = stations"
  shows "fire_worker_from_assignment x asg =
         create_initial_assignment_sequential (filter (\<lambda>w. w \<noteq> x) (concat (map snd asg)))"
  by (simp add: fire_worker_from_assignment_def create_initial_assignment_sequential_def
      those_lookup_stations[OF assms])

lemma length_filter_neq:
  "length (filter (\<lambda>w. w \<noteq> x) xs) = length xs - count_list xs x"
  by (induction xs) (auto simp: Suc_diff_le count_le_length)

lemma mod6_cases: "(m::int) mod 6 = 0 \<or> m mod 6 = 1 \<or> m mod 6 = 2 \<or> m mod 6 = 3 \<or> m mod 6 = 4 \<or> m mod 6 = 5"
proof -
  have "0 \<le> m mod 6" "m mod 6 < 6" by simp_all
  then show ?thesis by linarith
qed

subsection \<open>Loops\<close>

lemma for_loop_append:
  "for_loop body (xs @ ys) s = Option.bind (for_loop body xs s) (for_loop body ys)"
  by (induction xs arbitrary: s) (auto split: bind_splits)

lemma for_loop_single: "for_loop body [x] = body x"
proof
  fix s show "for_loop body [x] s = body x s"
    by (cases "body x s") simp_all
qed

lemma for_loop_snoc:
  "for_loop body (xs @ [x]) s = Option.bind (for_loop body xs s) (body x)"
  by (simp add: for_loop_append for_loop_single)

text \<open>Total correctness of a loop from an invariant that every step keeps.\<close>

lemma for_loop_invariant:
  assumes "I s"
    and "\<And>x s. x \<in> set xs \<Longrightarrow> I s \<Longrightarrow> \<exists>s'. body x s = Some s' \<and> I s'"
  shows "\<exists>s'. for_loop body xs s = Some s' \<and> I s'"
  using assms
proof (induction xs arbitrary: s)
  case Nil
  then show ?case by simp
next
  case (Cons x xs)
  from Cons.prems(2)[of x s] Cons.prems(1) obtain s1 where s1: "body x s = Some s1" "I s1"
    by auto
  from Cons.IH[OF s1(2)] Cons.prems(2) obtain s' where "for_loop body xs s1 = Some s'" "I s'"
    by auto
  with s1 show ?case by simp
qed

text \<open>The same with an invariant that knows the part of the list already processed.\<close>

lemma for_loop_invariant_prefix:
  assumes "I [] s"
    and "\<And>pre x post s. xs = pre @ x # post \<Longrightarrow> I pre s \<Longrightarrow>
            \<exists>s'. body x s = Some s' \<and> I (pre @ [x]) s'"
  shows "\<exists>s'. for_loop body xs s = Some s' \<and> I xs s'"
  using assms
proof (induction xs arbitrary: s rule: rev_induct)
  case Nil
  then show ?case by simp
next
  case (snoc x xs)
  have "\<exists>s'. for_loop body xs s = Some s' \<and> I xs s'"
  proof (rule snoc.IH[OF snoc.prems(1)])
    fix pre y post s
    assume "xs = pre @ y # post" "I pre s"
    then show "\<exists>s'. body y s = Some s' \<and> I (pre @ [y]) s'"
      using snoc.prems(2)[of pre y "post @ [x]" s] by simp
  qed
  then obtain s1 where s1: "for_loop body xs s = Some s1" "I xs s1" by blast
  from snoc.prems(2)[of xs x "[]" s1] s1(2) obtain s' where "body x s1 = Some s'" "I (xs @ [x]) s'"
    by auto
  with s1 show ?case by (simp add: for_loop_snoc)
qed

text \<open>Partial correctness: a property that every successful step keeps.\<close>

lemma for_loop_preserves:
  assumes "for_loop body xs s = Some s'" and "I s"
    and "\<And>x s s'. x \<in> set xs \<Longrightarrow> I s \<Longrightarrow> body x s = Some s' \<Longrightarrow> I s'"
  shows "I s'"
  using assms
proof (induction xs arbitrary: s)
  case Nil
  then show ?case by simp
next
  case (Cons x xs)
  from Cons.prems(1) obtain s1 where s1: "body x s = Some s1" "for_loop body xs s1 = Some s'"
    by (auto simp: bind_eq_Some_conv)
  have "I s1" using Cons.prems(3)[of x s s1] Cons.prems(2) s1(1) by simp
  show ?case
  proof (rule Cons.IH[OF s1(2) \<open>I s1\<close>])
    fix y t t' assume "y \<in> set xs" "I t" "body y t = Some t'"
    then show "I t'" using Cons.prems(3)[of y t t'] by simp
  qed
qed

subsection \<open>Dicts\<close>

lemma map_of_dict_set: "map_of (dict_set k v d) = (map_of d)(k \<mapsto> v)"
  by (induction d) (auto simp: fun_eq_iff)

lemma dict_modify_eq_Some:
  assumes "map_of d k = Some v"
  shows "\<exists>d'. dict_modify k f d = Some d' \<and> map fst d' = map fst d \<and>
           map_of d' = (map_of d)(k \<mapsto> f v)"
proof -
  have "k \<in> fst ` set d" using assms by (meson domI domIff map_of_eq_None_iff)
  from dict_modify_Some[OF this, of f] show ?thesis using assms by simp
qed

lemma dict_modify_None: "map_of d k = None \<Longrightarrow> dict_modify k f d = None"
  by (induction d) (auto split: if_splits)

lemma dict_modify_mset:
  "dict_modify k f d = Some d' \<Longrightarrow> map_of d k = Some v \<Longrightarrow>
     mset (concat (map snd d')) + mset v = mset (concat (map snd d)) + mset (f v)"
  by (induction d arbitrary: d') (auto split: if_splits)

lemma map_of_dict_from:
  "map_of (dict_from key xs) k = find (\<lambda>x. key x = k) (rev xs)"
proof (induction xs rule: rev_induct)
  case Nil
  then show ?case by (simp add: dict_from_def)
next
  case (snoc x xs)
  have "dict_from key (xs @ [x]) = dict_set (key x) x (dict_from key xs)"
    by (simp add: dict_from_def)
  then show ?case using snoc by (simp add: map_of_dict_set)
qed

lemma dict_from_Some: "map_of (dict_from key xs) k = Some x \<Longrightarrow> key x = k \<and> x \<in> set xs"
  by (auto simp: map_of_dict_from find_Some_iff) (metis length_rev nth_mem set_rev)

lemma dict_from_None: "map_of (dict_from key xs) k = None \<longleftrightarrow> k \<notin> key ` set xs"
  by (auto simp: map_of_dict_from find_None_iff)

lemma dict_from_distinct:
  assumes "distinct (map key xs)" "x \<in> set xs"
  shows "map_of (dict_from key xs) (key x) = Some x"
proof -
  from assms(2) have "map_of (dict_from key xs) (key x) \<noteq> None"
    by (simp add: dict_from_None)
  then obtain y where y: "map_of (dict_from key xs) (key x) = Some y" by blast
  from dict_from_Some[OF this] have "key y = key x" "y \<in> set xs" by simp_all
  with assms have "y = x" by (meson distinct_map inj_onD)
  with y show ?thesis by simp
qed

subsection \<open>Placing workers at a position\<close>

lemma place_worker_Some:
  assumes "map_of a s = Some seq" "p < length seq"
  shows "\<exists>a'. place_worker p (s, w) a = Some a' \<and> map fst a' = map fst a \<and>
           map_of a' = (map_of a)(s \<mapsto> seq[p := w]) \<and>
           add_mset (seq ! p) (mset (concat (map snd a'))) = add_mset w (mset (concat (map snd a)))"
proof -
  from dict_modify_eq_Some[OF assms(1), of "\<lambda>seq. seq[p := w]"] obtain a' where a':
    "dict_modify s (\<lambda>seq. seq[p := w]) a = Some a'" "map fst a' = map fst a"
    "map_of a' = (map_of a)(s \<mapsto> seq[p := w])" by blast
  have "mset (concat (map snd a')) + mset seq = mset (concat (map snd a)) + mset (seq[p := w])"
    using dict_modify_mset[OF a'(1) assms(1)] .
  moreover have "mset (seq[p := w]) + {#seq ! p#} = add_mset w (mset seq)"
    using assms(2) by (simp add: mset_update)
  ultimately have "add_mset (seq ! p) (mset (concat (map snd a'))) + mset seq =
      add_mset w (mset (concat (map snd a))) + mset seq"
    by (metis (no_types, lifting) add.assoc add.commute add_mset_add_single)
  then have "add_mset (seq ! p) (mset (concat (map snd a'))) = add_mset w (mset (concat (map snd a)))"
    by simp
  then show ?thesis using a' assms by (simp add: place_worker_def)
qed

text \<open>Placing the workers \<open>ws\<close> at position \<open>p\<close> of the distinct stations \<open>ss\<close>, all of which have
  that position.\<close>

lemma place_loop:
  assumes "distinct ss" "length ws = length ss"
    and "\<forall>s\<in>set ss. \<exists>seq. map_of a s = Some seq \<and> p < length seq"
  shows "\<exists>a'. for_loop (place_worker p) (zip ss ws) a = Some a' \<and> map fst a' = map fst a \<and>
           (\<forall>i<length ss. map_of a' (ss ! i) = Some ((the (map_of a (ss ! i)))[p := ws ! i])) \<and>
           (\<forall>s. s \<notin> set ss \<longrightarrow> map_of a' s = map_of a s) \<and>
           mset (concat (map snd a')) + mset (map (\<lambda>s. the (map_of a s) ! p) ss) =
             mset (concat (map snd a)) + mset ws"
  using assms
proof (induction ss arbitrary: ws rule: rev_induct)
  case Nil
  then show ?case by simp
next
  case (snoc s ss)
  from snoc.prems(2) obtain ws' w where ws: "ws = ws' @ [w]" "length ws' = length ss"
    by (metis length_Suc_conv_rev length_append_singleton)
  from snoc.prems have d: "distinct ss" "s \<notin> set ss" by simp_all
  from snoc.IH[OF d(1) ws(2)] snoc.prems(3) obtain a1 where a1:
    "for_loop (place_worker p) (zip ss ws') a = Some a1" "map fst a1 = map fst a"
    "\<forall>i<length ss. map_of a1 (ss ! i) = Some ((the (map_of a (ss ! i)))[p := ws' ! i])"
    "\<forall>s. s \<notin> set ss \<longrightarrow> map_of a1 s = map_of a s"
    "mset (concat (map snd a1)) + mset (map (\<lambda>s. the (map_of a s) ! p) ss) =
             mset (concat (map snd a)) + mset ws'"
    by auto
  from snoc.prems(3) obtain seq where seq: "map_of a s = Some seq" "p < length seq" by auto
  then have seq1: "map_of a1 s = Some seq" using a1(4) d(2) by simp
  from place_worker_Some[OF seq1 seq(2), of w] obtain a' where a':
    "place_worker p (s, w) a1 = Some a'" "map fst a' = map fst a1"
    "map_of a' = (map_of a1)(s \<mapsto> seq[p := w])"
    "add_mset (seq ! p) (mset (concat (map snd a'))) = add_mset w (mset (concat (map snd a1)))"
    by blast
  have loop: "for_loop (place_worker p) (zip (ss @ [s]) ws) a = Some a'"
    using a1(1) a'(1) ws by (simp add: for_loop_snoc)
  have pos: "map_of a' ((ss @ [s]) ! i) = Some ((the (map_of a ((ss @ [s]) ! i)))[p := ws ! i])"
    if "i < length (ss @ [s])" for i
  proof (cases "i < length ss")
    case True
    then have "ss ! i \<noteq> s" using d(2) by (metis nth_mem)
    then show ?thesis using True a1(3) a'(3) ws by (simp add: nth_append)
  next
    case False
    with that have "i = length ss" by simp
    then show ?thesis using a'(3) ws seq by (simp add: nth_append)
  qed
  have other: "map_of a' t = map_of a t" if "t \<notin> set (ss @ [s])" for t
    using that a'(3) a1(4) by simp
  have "mset (concat (map snd a')) + mset (map (\<lambda>s. the (map_of a s) ! p) (ss @ [s])) =
        add_mset (seq ! p) (mset (concat (map snd a'))) + mset (map (\<lambda>s. the (map_of a s) ! p) ss)"
    using seq by simp
  also have "\<dots> = add_mset w (mset (concat (map snd a1))) + mset (map (\<lambda>s. the (map_of a s) ! p) ss)"
    by (simp only: a'(4))
  also have "\<dots> = mset (concat (map snd a)) + mset ws"
    using a1(5) ws by simp
  finally have m: "mset (concat (map snd a')) + mset (map (\<lambda>s. the (map_of a s) ! p) (ss @ [s])) =
        mset (concat (map snd a)) + mset ws" .
  show ?case
    using loop a'(2) a1(2) pos other m by auto
qed

subsection \<open>The cohort of a position\<close>

lemma cohort_loop:
  assumes "\<forall>s\<in>set ss. map_of a s \<noteq> None"
  shows "for_loop (cohort_step a p) ss acc =
         Some (acc @ map (\<lambda>s. (s, the (map_of a s) ! p))
                       (filter (\<lambda>s. p < length (the (map_of a s))) ss))"
  using assms
proof (induction ss arbitrary: acc)
  case Nil
  then show ?case by simp
next
  case (Cons s ss)
  then obtain seq where "map_of a s = Some seq" by auto
  then show ?case using Cons by (simp add: cohort_step_def)
qed

lemma cohort_eq:
  assumes "\<forall>s\<in>set stations. map_of a s \<noteq> None"
  shows "cohort a p = Some (map (\<lambda>s. (s, the (map_of a s) ! p))
                              (filter (\<lambda>s. p < length (the (map_of a s))) stations))"
  using cohort_loop[OF assms, of p "[]"] by (simp add: cohort_def)

subsection \<open>Looking up profiles\<close>

lemma factory_lookup_None:
  "map_of (factory_worker_dict fws) wid = None \<longleftrightarrow> wid \<notin> fw_id ` set fws"
  by (simp add: factory_worker_dict_def dict_from_None)

lemma factory_lookup_Some:
  "map_of (factory_worker_dict fws) wid = Some w \<Longrightarrow> fw_id w = wid \<and> w \<in> set fws"
  unfolding factory_worker_dict_def by (rule dict_from_Some)

subsection \<open>The position optimiser\<close>

lemma best_step_good:
  assumes "set W \<subseteq> fw_id ` set fws" "wid \<in> set W" "good_best W assigned b"
  shows "\<exists>b'. best_step fws assigned s wid b = Some b' \<and> good_best W assigned b'"
proof (cases "wid \<in> assigned")
  case True
  then show ?thesis using assms(3) by (simp add: best_step_def)
next
  case False
  from assms(1,2) obtain fw where "map_of (factory_worker_dict fws) wid = Some fw"
    using factory_lookup_None[of fws wid] by auto
  then show ?thesis
    using False assms(2,3) by (auto simp: best_step_def good_best_def Let_def)
qed

lemma best_loop_good:
  assumes "set W \<subseteq> fw_id ` set fws" "set V \<subseteq> set W" "good_best W assigned b"
  shows "\<exists>b'. for_loop (best_step fws assigned s) V b = Some b' \<and> good_best W assigned b'"
proof (rule for_loop_invariant[where I = "good_best W assigned", OF assms(3)])
  fix x b assume "x \<in> set V" "good_best W assigned b"
  then show "\<exists>b'. best_step fws assigned s x b = Some b' \<and> good_best W assigned b'"
    using best_step_good[OF assms(1)] assms(2) by blast
qed

lemma best_loop_start:
  assumes "set W \<subseteq> fw_id ` set fws" "set V \<subseteq> set W" "\<exists>w\<in>set V. w \<notin> assigned"
  shows "\<exists>b'. for_loop (best_step fws assigned s) V (None, None) = Some b' \<and>
           good_best W assigned b'"
  using assms(2,3)
proof (induction V)
  case Nil
  then show ?case by simp
next
  case (Cons v V)
  show ?case
  proof (cases "v \<in> assigned")
    case True
    with Cons.prems have "\<exists>w\<in>set V. w \<notin> assigned" "set V \<subseteq> set W" by auto
    from Cons.IH[OF this(2,1)] show ?thesis using True by (simp add: best_step_def)
  next
    case False
    from assms(1) Cons.prems(1) obtain fw where fw: "map_of (factory_worker_dict fws) v = Some fw"
      using factory_lookup_None[of fws v] by auto
    have step: "best_step fws assigned s v (None, None) =
        Some (Some v, Some (get_average_percentage fw s))"
      using False fw by (simp add: best_step_def)
    have "good_best W assigned (Some v, Some (get_average_percentage fw s))"
      using False Cons.prems(1) by (simp add: good_best_def)
    from best_loop_good[OF assms(1) _ this, of V s] Cons.prems(1) show ?thesis
      using step by simp
  qed
qed

lemma optimize_loop:
  assumes reg: "set W \<subseteq> fw_id ` set fws"
    and ne: "[] \<notin> set W"
    and dW: "distinct W"
    and dss: "distinct ss"
    and len: "length ss \<le> length W"
    and pos: "\<forall>s\<in>set ss. \<exists>seq. map_of a s = Some seq \<and> p < length seq"
  shows "\<exists>oa assigned det placed.
           for_loop (optimize_station fws p W) ss (a, {}, []) = Some (oa, assigned, det) \<and>
           length placed = length ss \<and> distinct placed \<and> set placed \<subseteq> set W \<and>
           for_loop (place_worker p) (zip ss placed) a = Some oa"
proof -
  define I where "I = (\<lambda>pre (st :: assignment \<times> worker_id set \<times> details).
     \<exists>placed. length placed = length pre \<and> distinct placed \<and> set placed \<subseteq> set W \<and>
        fst (snd st) = set placed \<and>
        for_loop (place_worker p) (zip pre placed) a = Some (fst st))"
  have init: "I [] (a, {}, [])" by (simp add: I_def)
  have step: "\<exists>st'. optimize_station fws p W x st = Some st' \<and> I (pre @ [x]) st'"
    if split: "ss = pre @ x # post" and inv: "I pre st" for pre x post st
  proof -
    obtain oa assigned det where st: "st = (oa, assigned, det)" by (cases st) auto
    from inv st obtain placed where placed: "length placed = length pre" "distinct placed"
      "set placed \<subseteq> set W" "assigned = set placed"
      "for_loop (place_worker p) (zip pre placed) a = Some oa"
      by (auto simp: I_def)
    have dpre: "distinct pre" "x \<notin> set pre" using dss split by simp_all
    have pos_pre: "\<forall>s\<in>set pre. \<exists>seq. map_of a s = Some seq \<and> p < length seq"
      using pos split by simp
    from place_loop[OF dpre(1) placed(1) pos_pre] placed(5)
    have same: "map_of oa x = map_of a x" using dpre(2) by auto
    from pos split obtain seq where seq: "map_of a x = Some seq" "p < length seq" by auto
    have "card (set placed) < card (set W)"
      using placed(1,2) dW len split by (simp add: distinct_card)
    then have "\<exists>w\<in>set W. w \<notin> assigned"
      using placed(3,4) by (metis card_mono finite_set leD subsetI)
    from best_loop_start[OF reg subset_refl this, of x] obtain bw sc where b:
      "for_loop (best_step fws assigned x) W (None, None) = Some (Some bw, Some sc)"
      "bw \<in> set W" "bw \<notin> assigned"
      by (auto simp: good_best_def)
    have bne: "bw \<noteq> []" using ne b(2) by auto
    from place_worker_Some[of oa x seq p bw] seq same obtain oa' where oa':
      "place_worker p (x, bw) oa = Some oa'" by auto
    then have dm: "dict_modify x (\<lambda>seq. seq[p := bw]) oa = Some oa'"
      using seq same by (simp add: place_worker_def)
    have idx: "py_index seq (int p) = Some (seq ! p)"
      using seq(2) by (simp add: py_index_def)
    have res: "optimize_station fws p W x st =
        Some (oa', insert bw assigned, dict_set x (seq ! p, bw, sc) det)"
      using b(1) bne seq same idx dm by (simp add: optimize_station_def st)
    have "for_loop (place_worker p) (zip (pre @ [x]) (placed @ [bw])) a = Some oa'"
      using placed(1,5) oa' by (simp add: for_loop_snoc)
    then have "I (pre @ [x]) (oa', insert bw assigned, dict_set x (seq ! p, bw, sc) det)"
      unfolding I_def using placed b(2,3)
      by (intro exI[of _ "placed @ [bw]"]) auto
    with res show ?thesis by blast
  qed
  have "\<exists>st'. for_loop (optimize_station fws p W) ss (a, {}, []) = Some st' \<and> I ss st'"
  proof (rule for_loop_invariant_prefix[where I = I, OF init])
    fix pre x post st assume "ss = pre @ x # post" "I pre st"
    then show "\<exists>s'. optimize_station fws p W x st = Some s' \<and> I (pre @ [x]) s'"
      by (rule step)
  qed
  then obtain st' where st':
    "for_loop (optimize_station fws p W) ss (a, {}, []) = Some st'" "I ss st'"
    by blast
  obtain oa assigned det where "st' = (oa, assigned, det)" by (cases st') auto
  with st' show ?thesis unfolding I_def by auto
qed

lemma lookups_disjoint:
  assumes "distinct (concat (map snd a))" "s \<noteq> t" "map_of a s = Some u" "map_of a t = Some v"
  shows "set u \<inter> set v = {}"
  using assms
proof (induction a)
  case Nil
  then show ?case by simp
next
  case (Cons kv a)
  obtain k x where kv: "kv = (k, x)" by (cases kv) auto
  from Cons.prems(1) kv have d: "distinct (concat (map snd a))"
    "set x \<inter> set (concat (map snd a)) = {}" by auto
  have sub: "set y \<subseteq> set (concat (map snd a))" if "map_of a r = Some y" for r y
    using map_of_SomeD[OF that] by force
  show ?case
  proof (cases "s = k")
    case True
    with Cons.prems kv have "u = x" "map_of a t = Some v" by auto
    then show ?thesis using d(2) sub by blast
  next
    case False
    note sk = this
    show ?thesis
    proof (cases "t = k")
      case True
      with Cons.prems kv sk have "v = x" "map_of a s = Some u" by auto
      then show ?thesis using d(2) sub by blast
    next
      case False
      with sk Cons.prems kv have "map_of a s = Some u" "map_of a t = Some v" by auto
      from Cons.IH[OF d(1) Cons.prems(2) this] show ?thesis .
    qed
  qed
qed

lemma occupants_distinct:
  assumes "distinct (concat (map snd a))" "distinct ss"
    and "\<forall>s\<in>set ss. \<exists>seq. map_of a s = Some seq \<and> p < length seq"
  shows "distinct (map (\<lambda>s. the (map_of a s) ! p) ss)"
proof -
  have "inj_on (\<lambda>s. the (map_of a s) ! p) (set ss)"
  proof (rule inj_onI)
    fix s t assume st: "s \<in> set ss" "t \<in> set ss"
      and eq: "the (map_of a s) ! p = the (map_of a t) ! p"
    from st assms(3) obtain u v where uv: "map_of a s = Some u" "p < length u"
      "map_of a t = Some v" "p < length v" by blast
    show "s = t"
    proof (rule ccontr)
      assume "s \<noteq> t"
      from lookups_disjoint[OF assms(1) this uv(1,3)] have "set u \<inter> set v = {}" .
      moreover have "u ! p \<in> set u" "v ! p \<in> set v" using uv by simp_all
      moreover have "u ! p = v ! p" using eq uv by simp
      ultimately show False by (metis disjoint_iff)
    qed
  qed
  then show ?thesis using assms(2) by (simp add: distinct_map)
qed

lemma occupants_subset:
  assumes "\<forall>s\<in>set ss. \<exists>seq. map_of a s = Some seq \<and> p < length seq"
  shows "set (map (\<lambda>s. the (map_of a s) ! p) ss) \<subseteq> set (concat (map snd a))"
proof
  fix w assume "w \<in> set (map (\<lambda>s. the (map_of a s) ! p) ss)"
  then obtain s where s: "s \<in> set ss" "w = the (map_of a s) ! p" by auto
  with assms obtain seq where seq: "map_of a s = Some seq" "p < length seq" by blast
  from map_of_SomeD[OF seq(1)] have "seq \<in> set (map snd a)" by force
  moreover have "w \<in> set seq" using s seq by simp
  ultimately show "w \<in> set (concat (map snd a))" by auto
qed

lemma stations_lookup:
  assumes "map fst a = stations"
  shows "\<forall>s\<in>set stations. map_of a s \<noteq> None"
  using assms by (metis map_of_eq_None_iff list.set_map)

lemma distinct_stations: "distinct stations"
  by (simp add: stations_eq)

lemma optimize_position_permutes:
  assumes keys: "map fst a = stations"
    and once: "distinct (concat (map snd a))"
    and reg: "set (concat (map snd a)) \<subseteq> fw_id ` set fws"
    and ne: "[] \<notin> set (concat (map snd a))"
  shows "\<exists>a' det c c'. optimize_position fws a p = Some (a', det) \<and>
      map fst a' = stations \<and>
      mset (concat (map snd a')) = mset (concat (map snd a)) \<and>
      cohort a p = Some c \<and> cohort a' p = Some c' \<and>
      map fst c' = map fst c \<and> mset (map snd c') = mset (map snd c) \<and>
      (\<forall>s\<in>set stations. length (the (map_of a' s)) = length (the (map_of a s)) \<and>
          (\<forall>q. q \<noteq> p \<longrightarrow> the (map_of a' s) ! q = the (map_of a s) ! q))"
proof -
  define ss where "ss = filter (\<lambda>s. p < length (the (map_of a s))) stations"
  define W where "W = map (\<lambda>s. the (map_of a s) ! p) ss"
  define c where "c = map (\<lambda>s. (s, the (map_of a s) ! p)) ss"
  have look: "\<forall>s\<in>set stations. map_of a s \<noteq> None"
    using keys by (rule stations_lookup)
  have c: "cohort a p = Some c"
    unfolding c_def ss_def by (rule cohort_eq[OF look])
  have fst_c: "map fst c = ss" and snd_c: "map snd c = W"
    by (simp_all add: c_def W_def comp_def)
  have dss: "distinct ss" unfolding ss_def using distinct_stations by simp
  have pos: "\<forall>s\<in>set ss. \<exists>seq. map_of a s = Some seq \<and> p < length seq"
    using look by (auto simp: ss_def)
  show ?thesis
  proof (cases "c = []")
    case True
    then have "optimize_position fws a p = Some (a, [])"
      using c by (simp add: optimize_position_def)
    then show ?thesis using c keys by auto
  next
    case False
    have dW: "distinct W" unfolding W_def by (rule occupants_distinct[OF once dss pos])
    have subW: "set W \<subseteq> set (concat (map snd a))"
      unfolding W_def by (rule occupants_subset[OF pos])
    have regW: "set W \<subseteq> fw_id ` set fws" using subW reg by blast
    have neW: "[] \<notin> set W" using subW ne by blast
    have len: "length ss \<le> length W" by (simp add: W_def)
    from optimize_loop[OF regW neW dW dss len pos]
    obtain oa assigned det placed where loop:
      "for_loop (optimize_station fws p W) ss (a, {}, []) = Some (oa, assigned, det)"
      "length placed = length ss" "distinct placed" "set placed \<subseteq> set W"
      "for_loop (place_worker p) (zip ss placed) a = Some oa"
      by blast
    have res: "optimize_position fws a p = Some (oa, det)"
      using c False loop(1) by (simp add: optimize_position_def fst_c snd_c)
    have "card (set placed) = length placed" "card (set W) = length W"
      using loop(3) dW by (simp_all add: distinct_card)
    then have "card (set placed) = card (set W)"
      using loop(2) by (simp add: W_def)
    then have "set placed = set W"
      using loop(4) by (simp add: card_subset_eq)
    then have mp: "mset placed = mset W"
      using loop(3) dW by (simp add: set_eq_iff_mset_eq_distinct)
    from place_loop[OF dss loop(2) pos] loop(5) have pl:
      "map fst oa = map fst a"
      "\<forall>i<length ss. map_of oa (ss ! i) = Some ((the (map_of a (ss ! i)))[p := placed ! i])"
      "\<forall>s. s \<notin> set ss \<longrightarrow> map_of oa s = map_of a s"
      "mset (concat (map snd oa)) + mset (map (\<lambda>s. the (map_of a s) ! p) ss) =
         mset (concat (map snd a)) + mset placed"
      by auto
    have m: "mset (concat (map snd oa)) = mset (concat (map snd a))"
      using pl(4) mp by (simp add: W_def)
    have shape: "length (the (map_of oa s)) = length (the (map_of a s)) \<and>
        (\<forall>q. q \<noteq> p \<longrightarrow> the (map_of oa s) ! q = the (map_of a s) ! q)" for s
    proof (cases "s \<in> set ss")
      case True
      then obtain i where "i < length ss" "s = ss ! i" by (metis in_set_conv_nth)
      then show ?thesis using pl(2) by simp
    next
      case False
      then show ?thesis using pl(3) by simp
    qed
    have look': "\<forall>s\<in>set stations. map_of oa s \<noteq> None"
      by (rule stations_lookup) (simp add: pl(1) keys)
    have ss': "filter (\<lambda>s. p < length (the (map_of oa s))) stations = ss"
      unfolding ss_def using shape by simp
    have "map (\<lambda>s. (s, the (map_of oa s) ! p)) ss = zip ss placed"
    proof (rule nth_equalityI)
      show "length (map (\<lambda>s. (s, the (map_of oa s) ! p)) ss) = length (zip ss placed)"
        using loop(2) by simp
      fix i assume "i < length (map (\<lambda>s. (s, the (map_of oa s) ! p)) ss)"
      then have i: "i < length ss" by simp
      with pos obtain seq where "map_of a (ss ! i) = Some seq" "p < length seq"
        by (metis nth_mem)
      then show "map (\<lambda>s. (s, the (map_of oa s) ! p)) ss ! i = zip ss placed ! i"
        using i pl(2) loop(2) by simp
    qed
    then have c': "cohort oa p = Some (zip ss placed)"
      using cohort_eq[OF look', of p] by (simp add: ss')
    have "map fst (zip ss placed) = map fst c" "mset (map snd (zip ss placed)) = mset (map snd c)"
      using loop(2) mp by (simp_all add: fst_c snd_c)
    then show ?thesis
      using res pl(1) keys m c c' shape by auto
  qed
qed

subsection \<open>Observations\<close>

lemma has_data_iff: "has_data_for_station w s \<longleftrightarrow> profile_obs w s \<noteq> []"
  by (simp add: has_data_for_station_def profile_obs_def split: option.splits)

lemma average_of_obs:
  "get_average_percentage w s =
     (if profile_obs w s = [] then 0 else sum_list (profile_obs w s) / real (length (profile_obs w s)))"
  by (simp add: get_average_percentage_def profile_obs_def split: option.splits)

lemma map_of_append_entry:
  "map_of (map (\<lambda>kv. if fst kv = s then (fst kv, snd kv @ [v]) else kv) d) k =
     (if k = s then map_option (\<lambda>xs. xs @ [v]) (map_of d k) else map_of d k)"
  by (induction d) auto

lemma profile_obs_record:
  "profile_obs (record_performance_percentage s v w) s' =
     (if s' = s then profile_obs w s @ [v] else profile_obs w s')"
  by (auto simp: profile_obs_def record_performance_percentage_def map_of_append_entry
      map_of_dict_set split: option.splits)

lemma fw_id_record [simp]: "fw_id (record_performance_percentage s v w) = fw_id w"
  by (simp add: record_performance_percentage_def Let_def)

lemma list_ex_iff_find: "list_ex P xs \<longleftrightarrow> find P (rev xs) \<noteq> None"
  by (auto simp: list_ex_iff find_None_iff)

lemma find_append:
  "find P (xs @ ys) = (case find P xs of None \<Rightarrow> find P ys | Some x \<Rightarrow> Some x)"
  by (induction xs) auto

lemma map_update_last:
  assumes "\<And>x. key (f x) = key x"
  shows "map key (update_last P f xs) = map key xs"
  using assms by (induction xs) auto

lemma find_update_last:
  assumes "\<And>x. key (f x) = key x"
  shows "find (\<lambda>x. key x = k') (rev (update_last (\<lambda>x. key x = k) f xs)) =
         (if k' = k then map_option f (find (\<lambda>x. key x = k) (rev xs))
          else find (\<lambda>x. key x = k') (rev xs))"
proof (induction xs)
  case Nil
  then show ?case by simp
next
  case (Cons x xs)
  show ?case
  proof (cases "list_ex (\<lambda>x. key x = k) xs")
    case True
    then obtain y where "find (\<lambda>x. key x = k) (rev xs) = Some y"
      by (auto simp: list_ex_iff_find)
    then show ?thesis using True Cons assms by (auto simp: find_append split: option.splits)
  next
    case False
    then have n: "find (\<lambda>x. key x = k) (rev xs) = None" by (simp add: list_ex_iff_find)
    show ?thesis using False n assms by (auto simp: find_append split: option.splits)
  qed
qed

lemma factory_lookup_update:
  assumes "\<And>x. fw_id (f x) = fw_id x"
  shows "map_of (factory_worker_dict (update_last (\<lambda>w. fw_id w = wid) f fws)) wid' =
         (if wid' = wid then map_option f (map_of (factory_worker_dict fws) wid)
          else map_of (factory_worker_dict fws) wid')"
  unfolding factory_worker_dict_def map_of_dict_from
  using find_update_last[of fw_id f wid' wid fws] assms by simp

lemma record_for_Some_iff:
  "(\<exists>fws'. record_for wid s v fws = Some fws') \<longleftrightarrow> wid \<in> fw_id ` set fws"
  using factory_lookup_None[of fws wid] by (auto simp: record_for_def split: option.splits)

lemma record_for_ids: "record_for wid s v fws = Some fws' \<Longrightarrow> map fw_id fws' = map fw_id fws"
  by (auto simp: record_for_def map_update_last split: option.splits)

lemma record_for_observations:
  assumes "record_for wid s v fws = Some fws'"
  shows "observations fws' wid' s' =
         (if wid' = wid \<and> s' = s then observations fws wid s @ [v] else observations fws wid' s')"
proof -
  from assms obtain w where w: "map_of (factory_worker_dict fws) wid = Some w"
    and fws': "fws' = update_last (\<lambda>w. fw_id w = wid) (record_performance_percentage s v) fws"
    by (auto simp: record_for_def split: option.splits)
  show ?thesis
    unfolding observations_def fws'
    by (simp add: factory_lookup_update w profile_obs_record)
qed

lemma ids_set: "map fw_id fws' = map fw_id fws \<Longrightarrow> fw_id ` set fws' = fw_id ` set fws"
  by (metis list.set_map)

text \<open>With distinct ids every profile of the list is the one its id is looked up to.\<close>

lemma factory_lookup_distinct:
  "distinct (map fw_id fws) \<Longrightarrow> w \<in> set fws \<Longrightarrow> map_of (factory_worker_dict fws) (fw_id w) = Some w"
  unfolding factory_worker_dict_def by (rule dict_from_distinct)

lemma observations_distinct:
  "distinct (map fw_id fws) \<Longrightarrow> w \<in> set fws \<Longrightarrow> observations fws (fw_id w) s = profile_obs w s"
  by (simp add: observations_def factory_lookup_distinct)

lemma completeness_iff:
  "get_data_completeness w < 100 \<longleftrightarrow> (\<exists>s\<in>set stations. profile_obs w s = [])"
proof -
  let ?n = "length (filter (has_data_for_station w) stations)"
  have le: "?n \<le> 6" using length_filter_le[of "has_data_for_station w" stations]
    by (simp add: stations_eq del: length_filter_le)
  have "get_data_completeness w < 100 \<longleftrightarrow> ?n < 6"
    using le by (simp add: get_data_completeness_def WSTATION_def)
  also have "\<dots> \<longleftrightarrow> ?n \<noteq> length stations" using le by (auto simp: stations_eq)
  also have "\<dots> \<longleftrightarrow> (\<exists>s\<in>set stations. \<not> has_data_for_station w s)"
    by (metis filter_id_conv length_filter_less less_irrefl_nat)
  finally show ?thesis by (simp add: has_data_iff)
qed

subsection \<open>The gap filler's log\<close>

lemma probe_station_Some:
  assumes "probe_station tws tasks bp a wid cur s st = Some st'"
  shows "\<exists>temp tw task ind base fws'.
    probe_assignment wid cur s a = Some temp \<and>
    map_of (dict_from tw_id tws) wid = Some tw \<and>
    py_index tasks (s - 1) = Some task \<and>
    calculate_performance tw s (delivery_time task) (fatigue_cost task) = Some ind \<and>
    map_of bp s = Some base \<and>
    record_for wid s (if base > 0 then ind / base * 100 + 100 else 100) (st_workers st) = Some fws' \<and>
    st' = st\<lparr>st_workers := fws',
             st_log := st_log st @
               [IncompleteFixEvent wid s temp (if base > 0 then ind / base * 100 + 100 else 100) fws']\<rparr>"
  using assms unfolding probe_station_def Let_def bind_eq_Some_conv option.inject
  by blast

lemma probe_station_log:
  assumes "probe_station tws tasks bp a wid (find_current wid a) s st = Some st'"
  shows "\<exists>e. st_log st' = st_log st @ [e] \<and> probe_event tws tasks bp a e"
proof -
  from probe_station_Some[OF assms] obtain temp tw task ind base fws' where p:
    "probe_assignment wid (find_current wid a) s a = Some temp"
    "map_of (dict_from tw_id tws) wid = Some tw"
    "py_index tasks (s - 1) = Some task"
    "calculate_performance tw s (delivery_time task) (fatigue_cost task) = Some ind"
    "map_of bp s = Some base"
    "record_for wid s (if base > 0 then ind / base * 100 + 100 else 100) (st_workers st) = Some fws'"
    "st' = st\<lparr>st_workers := fws',
             st_log := st_log st @
               [IncompleteFixEvent wid s temp (if base > 0 then ind / base * 100 + 100 else 100) fws']\<rparr>"
    by blast
  have "observations fws' wid s =
      observations (st_workers st) wid s @ [if base > 0 then ind / base * 100 + 100 else 100]"
    using record_for_observations[OF p(6), of wid s] by simp
  then have "probe_event tws tasks bp a
      (IncompleteFixEvent wid s temp (if base > 0 then ind / base * 100 + 100 else 100) fws')"
    unfolding probe_event_def using p(1-5) by auto
  then show ?thesis using p(7) by simp
qed

text \<open>A loop whose steps only append events that satisfy \<open>Q\<close>.\<close>

lemma for_loop_log:
  assumes "for_loop body xs st = Some st'"
    and "\<And>x s s'. x \<in> set xs \<Longrightarrow> body x s = Some s' \<Longrightarrow>
           \<exists>new. st_log s' = st_log s @ new \<and> (\<forall>e\<in>set new. Q e)"
  shows "\<exists>new. st_log st' = st_log st @ new \<and> (\<forall>e\<in>set new. Q e)"
proof (rule for_loop_preserves[OF assms(1),
      where I = "\<lambda>s. \<exists>new. st_log s = st_log st @ new \<and> (\<forall>e\<in>set new. Q e)"])
  show "\<exists>new. st_log st = st_log st @ new \<and> (\<forall>e\<in>set new. Q e)" by simp
next
  fix x s s'
  assume x: "x \<in> set xs" and "\<exists>new. st_log s = st_log st @ new \<and> (\<forall>e\<in>set new. Q e)"
    and b: "body x s = Some s'"
  then obtain new where new: "st_log s = st_log st @ new" "\<forall>e\<in>set new. Q e" by blast
  from assms(2)[OF x b] obtain new' where "st_log s' = st_log s @ new'" "\<forall>e\<in>set new'. Q e"
    by blast
  with new show "\<exists>new. st_log s' = st_log st @ new \<and> (\<forall>e\<in>set new. Q e)"
    by (intro exI[of _ "new @ new'"]) auto
qed

lemma process_worker_log:
  assumes "process_worker tws tasks bp a wid st = Some st'"
  shows "\<exists>new. st_log st' = st_log st @ new \<and> (\<forall>e\<in>set new. probe_event tws tasks bp a e)"
proof -
  from assms obtain worker where
    loop: "for_loop (probe_station tws tasks bp a wid (find_current wid a))
             (filter (\<lambda>s. \<not> has_data_for_station worker s) stations) st = Some st'"
    by (auto simp: process_worker_def bind_eq_Some_conv)
  show ?thesis
  proof (rule for_loop_log[OF loop])
    fix x s s'
    assume "probe_station tws tasks bp a wid (find_current wid a) x s = Some s'"
    from probe_station_log[OF this]
    show "\<exists>new. st_log s' = st_log s @ new \<and> (\<forall>e\<in>set new. probe_event tws tasks bp a e)"
      by (metis empty_iff empty_set set_ConsD)
  qed
qed

lemma gap_filler_log:
  assumes "collect_incomplete_worker_data_ui tws tasks a st = Some (a', st')"
  shows "a' = a \<and>
    (\<exists>new. st_log st' = st_log st @ new \<and>
       (\<forall>e\<in>set new. \<exists>bp. simulate_station_performance tws tasks a = Some bp \<and>
                            probe_event tws tasks bp a e))"
proof (cases "incomplete_workers (st_workers st) = []")
  case True
  with assms show ?thesis by (simp add: collect_incomplete_worker_data_ui_def)
next
  case False
  with assms obtain bp where bp: "simulate_station_performance tws tasks a = Some bp"
    and loop: "for_loop (process_worker tws tasks bp a) (incomplete_workers (st_workers st)) st = Some st'"
    and a': "a' = a"
    by (auto simp: collect_incomplete_worker_data_ui_def Let_def bind_eq_Some_conv)
  have "\<exists>new. st_log st' = st_log st @ new \<and> (\<forall>e\<in>set new. probe_event tws tasks bp a e)"
  proof (rule for_loop_log[OF loop])
    fix x s s'
    assume "process_worker tws tasks bp a x s = Some s'"
    then show "\<exists>new. st_log s' = st_log s @ new \<and> (\<forall>e\<in>set new. probe_event tws tasks bp a e)"
      by (rule process_worker_log)
  qed
  with bp a' show ?thesis by auto
qed

subsection \<open>A run of the gap filler on the example data\<close>

lemmas run_defs =
  collect_incomplete_worker_data_ui_def incomplete_workers_def get_data_completeness_def
  has_data_for_station_def stations_eq WSTATION_def simulate_station_performance_def
  simulate_station_def add_performance_def dict_from_def calculate_performance_def get_skill_def
  py_index_def calculate_energy_avg_def SIMULATION_TIME_def process_worker_def
  factory_worker_dict_def probe_station_def probe_assignment_def record_for_def
  record_performance_percentage_def example_tasks_def example_true_worker_def
  example_assignment_def example_learned_def Let_def

lemma example_gap_filler_run:
  "collect_incomplete_worker_data_ui
     [example_true_worker ''0001'' 4, example_true_worker ''0002'' 6]
     example_tasks example_assignment
     \<lparr>st_workers = example_learned, st_log = [], st_cycle = 2\<rparr> =
   Some (example_assignment,
     \<lparr>st_workers =
        [\<lparr>worker_id = ''0001'',
          performance_percentages = map (\<lambda>s. (s, [100])) [1, 2, 3, 4, 5, 6]\<rparr>,
         \<lparr>worker_id = ''0002'',
          performance_percentages = map (\<lambda>s. (s, [100])) [2, 3, 4, 5, 6] @ [(1, [250])]\<rparr>],
      st_log =
        [IncompleteFixEvent ''0002'' 1
           [(1, [''0002'', ''0001'']), (2, []), (3, []), (4, []), (5, []), (6, [])] 250
           [\<lparr>worker_id = ''0001'',
             performance_percentages = map (\<lambda>s. (s, [100])) [1, 2, 3, 4, 5, 6]\<rparr>,
            \<lparr>worker_id = ''0002'',
             performance_percentages = map (\<lambda>s. (s, [100])) [2, 3, 4, 5, 6] @ [(1, [250])]\<rparr>]],
      st_cycle = 2\<rparr>)"
  by (simp add: run_defs)

subsection \<open>Shapes of assignments\<close>

lemma same_shape_refl [simp]: "same_shape a a"
  by (simp add: same_shape_def)

lemma same_shape_trans: "same_shape a b \<Longrightarrow> same_shape b c \<Longrightarrow> same_shape a c"
  by (simp add: same_shape_def)

lemma same_shape_sym: "same_shape a b \<Longrightarrow> same_shape b a"
  by (simp add: same_shape_def)

lemma same_shape_lookup:
  "same_shape a b \<Longrightarrow> map_of a s = Some x \<Longrightarrow> \<exists>y. map_of b s = Some y \<and> length y = length x"
  unfolding same_shape_def by (metis map_option_eq_Some option.simps(9))

lemma dict_modify_Some_lookup:
  assumes "dict_modify k f d = Some d'"
  shows "\<exists>v. map_of d k = Some v \<and> map fst d' = map fst d \<and> map_of d' = (map_of d)(k \<mapsto> f v)"
proof (cases "map_of d k")
  case None
  with assms show ?thesis by (simp add: dict_modify_None)
next
  case (Some v)
  from dict_modify_eq_Some[OF Some, of f] assms show ?thesis using Some by auto
qed

lemma dict_modify_shape:
  assumes "dict_modify k f d = Some d'" "\<And>x. length (f x) = length x"
  shows "same_shape d d'"
proof -
  from dict_modify_Some_lookup[OF assms(1)] obtain v where
    "map_of d k = Some v" "map fst d' = map fst d" "map_of d' = (map_of d)(k \<mapsto> f v)" by blast
  then show ?thesis using assms(2) by (simp add: same_shape_def)
qed

lemma place_worker_shape: "place_worker p sw a = Some a' \<Longrightarrow> same_shape a a'"
  by (auto simp: place_worker_def bind_eq_Some_conv split: if_splits intro: dict_modify_shape)

lemma place_loop_shape:
  assumes "for_loop (place_worker p) xs a = Some a'"
  shows "same_shape a a'"
  by (rule for_loop_preserves[OF assms, where I = "same_shape a"])
    (auto dest: place_worker_shape intro: same_shape_trans)

lemma optimize_station_shape:
  assumes "optimize_station fws p W s st = Some st'"
  shows "same_shape (fst st) (fst st')"
proof -
  obtain oa assigned det where st: "st = (oa, assigned, det)" by (cases st) auto
  from assms obtain bw bs where
    r: "(case (bw, bs) of
            (Some best_worker, Some best_score) \<Rightarrow>
              if best_worker \<noteq> [] then
                do {
                  seq \<leftarrow> map_of oa s;
                  old_worker \<leftarrow> py_index seq (int p);
                  oa' \<leftarrow> dict_modify s (\<lambda>seq. seq[p := best_worker]) oa;
                  Some (oa', insert best_worker assigned,
                        dict_set s (old_worker, best_worker, best_score) det)
                }
              else Some st
          | _ \<Rightarrow> Some st) = Some st'"
    unfolding optimize_station_def st by (auto simp: bind_eq_Some_conv)
  show ?thesis
  proof (cases bw)
    case None
    with r show ?thesis by simp
  next
    case (Some w)
    note bw = this
    show ?thesis
    proof (cases bs)
      case None
      with r bw show ?thesis by simp
    next
      case (Some sc)
      show ?thesis
      proof (cases "w = []")
        case True
        with r bw Some show ?thesis by simp
      next
        case False
        with r bw Some obtain oa' where "dict_modify s (\<lambda>seq. seq[p := w]) oa = Some oa'"
          "fst st' = oa'"
          by (auto simp: bind_eq_Some_conv)
        then show ?thesis using dict_modify_shape[of s "\<lambda>seq. seq[p := w]" oa oa'] st by simp
      qed
    qed
  qed
qed

lemma optimize_position_shape:
  assumes "optimize_position fws a p = Some (a', det)"
  shows "same_shape a a'"
proof -
  from assms obtain c where c: "cohort a p = Some c" 
    by (auto simp: optimize_position_def bind_eq_Some_conv)
  show ?thesis
  proof (cases "c = []")
    case True
    with assms c show ?thesis by (simp add: optimize_position_def)
  next
    case False
    with assms c obtain st where st:
      "for_loop (optimize_station fws p (map snd c)) (map fst c) (a, {}, []) = Some st"
      "a' = fst st"
      by (auto simp: optimize_position_def bind_eq_Some_conv)
    have "same_shape a (fst st)"
      by (rule for_loop_preserves[OF st(1), where I = "\<lambda>st. same_shape a (fst st)"])
        (auto dest: optimize_station_shape intro: same_shape_trans)
    with st(2) show ?thesis by simp
  qed
qed

subsection \<open>The adjustment\<close>

lemma adjustment_step_eq:
  assumes "adjustment_step fws orig s p (q, w) acc = Some acc'"
    and "map_of orig s = Some orig_seq" and "q < length orig_seq"
  shows "acc' = acc + (if q \<noteq> p \<and> w \<noteq> orig_seq ! q then learned_average fws w s - 100 else 0)"
  using assms
  by (auto simp: adjustment_step_def learned_average_def bind_eq_Some_conv split: if_splits)

lemma adjustment_loop_eq:
  assumes "for_loop (adjustment_step fws orig s p) (enumerate n xs) acc = Some adj"
    and "map_of orig s = Some orig_seq" and "n + length xs \<le> length orig_seq"
  shows "adj = acc + (\<Sum>qw\<leftarrow>enumerate n xs.
            if fst qw \<noteq> p \<and> snd qw \<noteq> orig_seq ! fst qw
            then learned_average fws (snd qw) s - 100 else 0)"
  using assms
proof (induction xs arbitrary: n acc)
  case Nil
  then show ?case by simp
next
  case (Cons x xs)
  from Cons.prems(1) obtain acc1 where s1: "adjustment_step fws orig s p (n, x) acc = Some acc1"
    and rest: "for_loop (adjustment_step fws orig s p) (enumerate (Suc n) xs) acc1 = Some adj"
    by (auto simp: bind_eq_Some_conv)
  have n: "n < length orig_seq" using Cons.prems(3) by simp
  have "Suc n + length xs \<le> length orig_seq" using Cons.prems(3) by simp
  from Cons.IH[OF rest Cons.prems(2) this] adjustment_step_eq[OF s1 Cons.prems(2) n]
  show ?case by simp
qed

lemma enumerate_nth: "enumerate 0 xs = map (\<lambda>q. (q, xs ! q)) [0..<length xs]"
  by (rule nth_equalityI) (simp_all add: nth_enumerate_eq)

lemma adjustment_is_spec:
  assumes "for_loop (adjustment_step fws orig s p) (enumerate 0 temp_seq) 0 = Some adj"
    and "map_of orig s = Some orig_seq" and "length temp_seq \<le> length orig_seq"
  shows "adj = spec_adjustment fws temp_seq orig_seq s p"
  using adjustment_loop_eq[OF assms(1,2)] assms(3)
  by (simp add: spec_adjustment_def enumerate_nth comp_def cong: if_cong)

subsection \<open>The rotation phase's events\<close>

lemma cohort_loop_lookup:
  "for_loop (cohort_step a p) ss acc = Some r \<Longrightarrow> \<forall>s\<in>set ss. map_of a s \<noteq> None"
proof (induction ss arbitrary: acc)
  case Nil
  then show ?case by simp
next
  case (Cons s ss)
  from Cons.prems obtain acc1 where s1: "cohort_step a p s acc = Some acc1"
    and rest: "for_loop (cohort_step a p) ss acc1 = Some r"
    by (auto simp: bind_eq_Some_conv)
  from s1 have "map_of a s \<noteq> None" by (auto simp: cohort_step_def bind_eq_Some_conv)
  moreover from Cons.IH[OF rest] have "\<forall>s\<in>set ss. map_of a s \<noteq> None" .
  ultimately show ?case by simp
qed

lemma cohort_Some:
  assumes "cohort a p = Some c"
  shows "(\<forall>s\<in>set stations. map_of a s \<noteq> None) \<and>
         c = map (\<lambda>s. (s, the (map_of a s) ! p))
               (filter (\<lambda>s. p < length (the (map_of a s))) stations)"
proof -
  have l: "\<forall>s\<in>set stations. map_of a s \<noteq> None"
    using assms unfolding cohort_def by (rule cohort_loop_lookup)
  from cohort_eq[OF l, of p] assms show ?thesis using l by simp
qed

lemma cohort_stations:
  assumes "cohort a p = Some c"
  shows "distinct (map fst c)"
    and "\<forall>s\<in>set (map fst c). \<exists>seq. map_of a s = Some seq \<and> p < length seq"
proof -
  from cohort_Some[OF assms] have l: "\<forall>s\<in>set stations. map_of a s \<noteq> None"
    and c: "c = map (\<lambda>s. (s, the (map_of a s) ! p))
               (filter (\<lambda>s. p < length (the (map_of a s))) stations)" by simp_all
  have f: "map fst c = filter (\<lambda>s. p < length (the (map_of a s))) stations"
    unfolding c by (simp add: comp_def)
  show "distinct (map fst c)" unfolding f using distinct_stations by simp
  show "\<forall>s\<in>set (map fst c). \<exists>seq. map_of a s = Some seq \<and> p < length seq"
    unfolding f using l by auto
qed

lemma list_all_dict_set: "list_all Q d \<Longrightarrow> Q (k, v) \<Longrightarrow> list_all Q (dict_set k v d)"
  by (induction d) auto

lemma length_rotated [simp]: "length (rotated r xs) = length xs"
  by (simp add: rotated_def)

lemma set_rotated [simp]: "set (rotated r xs) = set xs"
  by (simp add: rotated_def) (metis append_take_drop_id set_append sup_commute)

lemma rotation_step_Some:
  assumes "rotation_step tws tasks bp orig p c r (temp, st) = Some (temp', st')"
  shows "\<exists>cp x.
    for_loop (place_worker p) (zip (map fst c) (rotated r (map snd c))) temp = Some temp' \<and>
    simulate_station_performance tws tasks temp' = Some cp \<and>
    for_loop (record_rotation bp cp temp' orig p) (zip (map fst c) (rotated r (map snd c)))
      (st_workers st, []) = Some x \<and>
    st' = st\<lparr>st_workers := fst x,
             st_log := st_log st @ [RotationEvent (st_cycle st) p r temp' (snd x) (fst x)],
             st_cycle := st_cycle st + 1\<rparr>"
  using assms
  unfolding rotation_step_def Let_def prod.case bind_eq_Some_conv case_prod_beta option.inject
    prod.inject fst_conv snd_conv
  by blast

subsection \<open>A run of the collector on the example data\<close>

lemmas collector_defs =
  systematic_data_collection_ui_def base_phase_def base_station_def base_record_def
  rotation_phase_def position_step_def check_position_needs_testing_def cohort_def
  cohort_step_def rotation_step_def rotated_def place_worker_def record_rotation_def
  adjustment_step_def optimize_position_def optimize_station_def best_step_def
  get_average_percentage_def

subsection \<open>The oracle is defined\<close>

lemma calculate_performance_Some:
  assumes "s \<in> set stations" "fatigue_base tw + 5 \<noteq> 0" "dt \<noteq> 0"
  shows "\<exists>v. calculate_performance tw s dt fc = Some v"
proof -
  from assms(1) have "1 \<le> s" "s \<le> 6" by (auto simp: stations_eq)
  then have "\<exists>v. get_skill tw s = Some v"
    by (simp add: get_skill_def py_index_def)
  moreover have "\<exists>v. calculate_energy_avg tw fc SIMULATION_TIME = Some v"
    using assms(2) by (simp add: calculate_energy_avg_def Let_def)
  ultimately show ?thesis using assms(3) by (auto simp: calculate_performance_def)
qed

lemma add_performance_Some:
  assumes "oracle_defined tws tasks" "s \<in> set stations" "task \<in> set tasks"
  shows "\<exists>v. add_performance (dict_from tw_id tws) s task wid acc = Some v"
proof (cases "map_of (dict_from tw_id tws) wid")
  case None
  then show ?thesis by (simp add: add_performance_def)
next
  case (Some tw)
  then have "tw \<in> set tws" using dict_from_Some by fastforce
  with assms have "fatigue_base tw + 5 \<noteq> 0" "delivery_time task \<noteq> 0"
    by (auto simp: oracle_defined_def)
  from calculate_performance_Some[OF assms(2) this, of "fatigue_cost task"] Some
  show ?thesis by (auto simp: add_performance_def)
qed

lemma simulate_station_Some:
  assumes "oracle_defined tws tasks" "fst item \<in> set stations"
  shows "\<exists>sp'. simulate_station (dict_from tw_id tws) (dict_from station_id tasks) item sp = Some sp' \<and>
           (\<forall>s. map_of sp' s \<noteq> None \<longleftrightarrow> s = fst item \<or> map_of sp s \<noteq> None)"
proof -
  from assms have "fst item \<in> station_id ` set tasks" by (auto simp: oracle_defined_def)
  then obtain task where task: "map_of (dict_from station_id tasks) (fst item) = Some task"
    using dict_from_None[of station_id tasks "fst item"] by auto
  then have t: "task \<in> set tasks" using dict_from_Some by fastforce
  have "\<exists>total. for_loop (add_performance (dict_from tw_id tws) (fst item) task) (snd item) 0 = Some total \<and> True"
    by (rule for_loop_invariant) (use add_performance_Some[OF assms(1,2) t] in auto)
  then obtain total where
    "for_loop (add_performance (dict_from tw_id tws) (fst item) task) (snd item) 0 = Some total"
    by blast
  with task show ?thesis by (simp add: simulate_station_def map_of_dict_set)
qed

lemma simulate_Some:
  assumes "oracle_defined tws tasks" "set (map fst a) \<subseteq> set stations"
  shows "\<exists>sp. simulate_station_performance tws tasks a = Some sp \<and>
           (\<forall>s\<in>set (map fst a). map_of sp s \<noteq> None)"
proof -
  have "\<exists>sp. for_loop (simulate_station (dict_from tw_id tws) (dict_from station_id tasks)) a [] = Some sp \<and>
      (\<forall>s\<in>set (map fst a). map_of sp s \<noteq> None)"
  proof (rule for_loop_invariant_prefix[where I = "\<lambda>pre (sp :: (int, real) dict). \<forall>s\<in>set (map fst pre). map_of sp s \<noteq> None"])
    show "\<forall>s\<in>set (map fst ([] :: assignment)). map_of ([] :: (int, real) dict) s \<noteq> None" by simp
  next
    fix pre x post and sp :: "(int, real) dict"
    assume a: "a = pre @ x # post" and inv: "\<forall>s\<in>set (map fst pre). map_of sp s \<noteq> None"
    then have "fst x \<in> set stations" using assms(2) by auto
    from simulate_station_Some[OF assms(1) this, of sp] inv
    show "\<exists>sp'. simulate_station (dict_from tw_id tws) (dict_from station_id tasks) x sp = Some sp' \<and>
        (\<forall>s\<in>set (map fst (pre @ [x])). map_of sp' s \<noteq> None)"
      by auto
  qed
  then show ?thesis by (simp add: simulate_station_performance_def)
qed

subsection \<open>The base phase\<close>

lemma observations_unregistered:
  "w \<notin> fw_id ` set fws \<Longrightarrow> observations fws w s = []"
  using factory_lookup_None[of fws w] by (simp add: observations_def)

lemma base_record_obs:
  "\<exists>fws'. base_record sid wid fws = Some fws' \<and> map fw_id fws' = map fw_id fws \<and>
     (\<forall>w s. observations fws' w s =
        (if w = wid \<and> s = sid \<and> w \<in> fw_id ` set fws then observations fws w s @ [100]
         else observations fws w s))"
proof (cases "wid \<in> fw_id ` set fws")
  case True
  then obtain fws' where r: "record_for wid sid 100 fws = Some fws'"
    using record_for_Some_iff by blast
  have "map_of (factory_worker_dict fws) wid \<noteq> None"
    using True factory_lookup_None by blast
  then have "base_record sid wid fws = Some fws'" using r by (simp add: base_record_def)
  then show ?thesis using record_for_ids[OF r] record_for_observations[OF r] True by auto
next
  case False
  then have "map_of (factory_worker_dict fws) wid = None"
    using factory_lookup_None by blast
  then show ?thesis using False by (simp add: base_record_def)
qed

lemma base_station_obs:
  "\<exists>fws'. base_station (sid, wids) fws = Some fws' \<and> map fw_id fws' = map fw_id fws \<and>
     (\<forall>w s. observations fws' w s =
        (if s = sid \<and> w \<in> fw_id ` set fws
         then observations fws w s @ replicate (count_list wids w) 100
         else observations fws w s))"
proof (induction wids arbitrary: fws)
  case Nil
  then show ?case by (simp add: base_station_def)
next
  case (Cons x wids)
  from base_record_obs[of sid x fws] obtain f1 where f1: "base_record sid x fws = Some f1"
    "map fw_id f1 = map fw_id fws"
    "\<forall>w s. observations f1 w s =
        (if w = x \<and> s = sid \<and> w \<in> fw_id ` set fws then observations fws w s @ [100]
         else observations fws w s)" by blast
  from Cons[of f1] obtain f2 where f2: "base_station (sid, wids) f1 = Some f2"
    "map fw_id f2 = map fw_id f1"
    "\<forall>w s. observations f2 w s =
        (if s = sid \<and> w \<in> fw_id ` set f1
         then observations f1 w s @ replicate (count_list wids w) 100
         else observations f1 w s)" by blast
  have ids: "fw_id ` set f1 = fw_id ` set fws" using f1(2) by (rule ids_set)
  have "base_station (sid, x # wids) fws = Some f2"
    using f1(1) f2(1) by (simp add: base_station_def)
  moreover have "observations f2 w s =
        (if s = sid \<and> w \<in> fw_id ` set fws
         then observations fws w s @ replicate (count_list (x # wids) w) 100
         else observations fws w s)" for w s
    using f1(3) f2(3) ids by (auto simp: replicate_append_same)
  ultimately show ?case using f1(2) f2(2) by auto
qed

lemma base_phase_obs:
  "\<exists>fws'. base_phase a fws = Some fws' \<and> map fw_id fws' = map fw_id fws \<and>
     (\<forall>w s. observations fws' w s =
        (if w \<in> fw_id ` set fws
         then observations fws w s @ replicate (base_count a w s) 100
         else observations fws w s))"
proof (induction a arbitrary: fws)
  case Nil
  then show ?case by (simp add: base_phase_def base_count_def)
next
  case (Cons item a)
  obtain sid wids where item: "item = (sid, wids)" by (cases item) auto
  from base_station_obs[of sid wids fws] obtain f1 where f1: "base_station (sid, wids) fws = Some f1"
    "map fw_id f1 = map fw_id fws"
    "\<forall>w s. observations f1 w s =
        (if s = sid \<and> w \<in> fw_id ` set fws
         then observations fws w s @ replicate (count_list wids w) 100
         else observations fws w s)" by blast
  from Cons[of f1] obtain f2 where f2: "base_phase a f1 = Some f2"
    "map fw_id f2 = map fw_id f1"
    "\<forall>w s. observations f2 w s =
        (if w \<in> fw_id ` set f1
         then observations f1 w s @ replicate (base_count a w s) 100
         else observations f1 w s)" by blast
  have ids: "fw_id ` set f1 = fw_id ` set fws" using f1(2) by (rule ids_set)
  have "base_phase (item # a) fws = Some f2"
    using f1(1) f2(1) by (simp add: base_phase_def item)
  moreover have "observations f2 w s =
        (if w \<in> fw_id ` set fws
         then observations fws w s @ replicate (base_count (item # a) w s) 100
         else observations fws w s)" for w s
    using f1(3) f2(3) ids by (auto simp: base_count_def item replicate_add)
  ultimately show ?case using f1(2) f2(2) by auto
qed

lemma count_list_concat: "count_list (concat xss) w = (\<Sum>xs\<leftarrow>xss. count_list xs w)"
  by (induction xss) auto

lemma base_count_le: "base_count a w s \<le> count_list (concat (map snd a)) w"
  unfolding base_count_def count_list_concat
  by (induction a) auto

subsection \<open>At most one observation more\<close>

lemma at_most_one_more_refl [simp]: "at_most_one_more f f"
  by (simp add: at_most_one_more_def)

lemma at_most_one_more_record:
  assumes "at_most_one_more f0 f" "observations f w s = []" "record_for w s v f = Some f'"
  shows "at_most_one_more f0 f'"
proof -
  have ids: "map fw_id f' = map fw_id f0"
    using record_for_ids[OF assms(3)] assms(1) by (simp add: at_most_one_more_def)
  have "observations f' w' s' = observations f0 w' s' \<or>
        (observations f0 w' s' = [] \<and> length (observations f' w' s') = 1)" for w' s'
  proof (cases "w' = w \<and> s' = s")
    case True
    then have "observations f' w' s' = [v]"
      using record_for_observations[OF assms(3), of w' s'] assms(2) by simp
    moreover have "observations f w s = observations f0 w s \<or>
        (observations f0 w s = [] \<and> length (observations f w s) = 1)"
      using assms(1) unfolding at_most_one_more_def by blast
    then have "observations f0 w s = []"
      using assms(2) by auto
    ultimately show ?thesis using True by simp
  next
    case False
    then have "observations f' w' s' = observations f w' s'"
      using record_for_observations[OF assms(3), of w' s'] by auto
    then show ?thesis using assms(1) by (simp add: at_most_one_more_def)
  qed
  with ids show ?thesis by (simp add: at_most_one_more_def)
qed

lemma at_most_one_more_ids:
  assumes "at_most_one_more f0 f" shows "fw_id ` set f = fw_id ` set f0"
proof -
  have "map fw_id f = map fw_id f0" using assms by (simp add: at_most_one_more_def)
  then have "set (map fw_id f) = set (map fw_id f0)" by (rule arg_cong)
  then show ?thesis by (simp only: set_map)
qed

subsection \<open>Workers of an assignment\<close>

lemma registered_lookup:
  "registered fws a \<Longrightarrow> map_of a s = Some seq \<Longrightarrow> set seq \<subseteq> fw_id ` set fws"
proof -
  assume r: "registered fws a" and m: "map_of a s = Some seq"
  have "(s, seq) \<in> set a" by (rule map_of_SomeD[OF m])
  then have "seq \<in> set (map snd a)" by (simp add: image_iff) (rule bexI[of _ "(s, seq)"], simp_all)
  then have "set seq \<subseteq> set (concat (map snd a))" by (simp only: set_concat) blast
  with r show ?thesis unfolding registered_def by blast
qed

lemma dict_modify_workers:
  assumes "dict_modify k f d = Some d'" "map_of d k = Some v"
  shows "set (concat (map snd d')) \<subseteq> set (concat (map snd d)) \<union> set (f v)"
proof
  fix x assume "x \<in> set (concat (map snd d'))"
  then have "x \<in># mset (concat (map snd d')) + mset v" by simp
  then have "x \<in># mset (concat (map snd d)) + mset (f v)"
    using dict_modify_mset[OF assms] by simp
  then show "x \<in> set (concat (map snd d)) \<union> set (f v)" by auto
qed

lemma place_worker_workers:
  assumes "place_worker p (s, w) a = Some a'"
  shows "set (concat (map snd a')) \<subseteq> insert w (set (concat (map snd a)))"
proof -
  from assms obtain seq where seq: "map_of a s = Some seq"
    and dm: "dict_modify s (\<lambda>seq. seq[p := w]) a = Some a'"
    by (auto simp: place_worker_def bind_eq_Some_conv split: if_splits)
  have "set (seq[p := w]) \<subseteq> insert w (set seq)" by (rule set_update_subset_insert)
  moreover have "set seq \<subseteq> set (concat (map snd a))"
  proof -
    have "(s, seq) \<in> set a" by (rule map_of_SomeD[OF seq])
    then have "seq \<in> set (map snd a)" by (simp add: image_iff) (rule bexI[of _ "(s, seq)"], simp_all)
    then show ?thesis by (simp only: set_concat) blast
  qed
  ultimately show ?thesis using dict_modify_workers[OF dm seq] by blast
qed

lemma place_loop_workers:
  assumes "for_loop (place_worker p) xs a = Some a'"
  shows "set (concat (map snd a')) \<subseteq> set (concat (map snd a)) \<union> set (map snd xs)"
proof (rule for_loop_preserves[OF assms,
      where I = "\<lambda>b. set (concat (map snd b)) \<subseteq> set (concat (map snd a)) \<union> set (map snd xs)"])
  show "set (concat (map snd a)) \<subseteq> set (concat (map snd a)) \<union> set (map snd xs)" by simp
next
  fix x b b'
  assume x: "x \<in> set xs" and inv: "set (concat (map snd b)) \<subseteq> set (concat (map snd a)) \<union> set (map snd xs)"
    and st: "place_worker p x b = Some b'"
  obtain s w where xe: "x = (s, w)" by (cases x) auto
  have "w \<in> set (map snd xs)" using x xe by (simp add: image_iff) (rule bexI[of _ "(s, w)"], simp_all)
  with place_worker_workers[OF st[unfolded xe]] inv
  show "set (concat (map snd b')) \<subseteq> set (concat (map snd a)) \<union> set (map snd xs)"
    by blast
qed

subsection \<open>Recording one station of a rotation\<close>

lemma adjustment_loop_Some:
  assumes "map_of orig s = Some orig_seq" "set temp_seq \<subseteq> fw_id ` set fws"
  shows "\<exists>adj. for_loop (adjustment_step fws orig s p) (enumerate 0 temp_seq) 0 = Some adj"
proof -
  have "\<exists>adj. for_loop (adjustment_step fws orig s p) (enumerate 0 temp_seq) 0 = Some adj \<and> True"
  proof (rule for_loop_invariant)
    fix x acc assume "x \<in> set (enumerate 0 temp_seq)"
    then have "fst x < length temp_seq" "temp_seq ! fst x = snd x"
      by (simp_all add: in_set_enumerate_eq)
    then have "snd x \<in> set temp_seq" using nth_mem[of "fst x" temp_seq] by simp
    with assms(2) obtain fw where "map_of (factory_worker_dict fws) (snd x) = Some fw"
      using factory_lookup_None[of fws "snd x"] by auto
    then show "\<exists>acc'. adjustment_step fws orig s p x acc = Some acc' \<and> True"
      using assms(1) by (simp add: adjustment_step_def)
  qed simp
  then show ?thesis by blast
qed

lemma record_rotation_total:
  assumes bp: "map_of bp s \<noteq> None" and cp: "map_of cp s \<noteq> None"
    and w: "w \<in> fw_id ` set fws"
    and shape: "same_shape orig temp" and reg: "registered fws temp"
    and orig: "map_of orig s \<noteq> None"
  shows "\<exists>fws' pc'. record_rotation bp cp temp orig p (s, w) (fws, pc) = Some (fws', pc') \<and>
           (fws' = fws \<or> (observations fws w s = [] \<and> (\<exists>v. record_for w s v fws = Some fws')))"
proof -
  from bp cp obtain base current where b: "map_of bp s = Some base" "map_of cp s = Some current"
    by auto
  from w obtain fw where fw: "map_of (factory_worker_dict fws) w = Some fw"
    using factory_lookup_None[of fws w] by auto
  show ?thesis
  proof (cases "has_data_for_station fw s")
    case True
    then show ?thesis using b fw by (simp add: record_rotation_def)
  next
    case False
    from orig obtain orig_seq where o: "map_of orig s = Some orig_seq" by auto
    from same_shape_lookup[OF shape o] obtain temp_seq where t: "map_of temp s = Some temp_seq"
      by blast
    from adjustment_loop_Some[OF o registered_lookup[OF reg t], of p] obtain adj where
      adj: "for_loop (adjustment_step fws orig s p) (enumerate 0 temp_seq) 0 = Some adj" by blast
    define v where "v = (if base \<noteq> 0 then current / base * 100 else 100) - adj"
    from w obtain fws' where rec: "record_for w s v fws = Some fws'"
      using record_for_Some_iff by blast
    have none: "observations fws w s = []"
      using False fw by (simp add: observations_def has_data_iff)
    have "record_rotation bp cp temp orig p (s, w) (fws, pc) =
        Some (fws', dict_set s (if base \<noteq> 0 then current / base * 100 else 100, v, w) pc)"
      unfolding record_rotation_def Let_def prod.case fst_conv snd_conv
      using b fw False t adj rec[unfolded v_def] by (simp add: v_def)
    with none rec show ?thesis by blast
  qed
qed

subsection \<open>The rotation phase runs to its end\<close>

lemma cohort_workers:
  assumes "cohort a p = Some c"
  shows "set (map snd c) \<subseteq> set (concat (map snd a))"
proof -
  let ?ss = "filter (\<lambda>s. p < length (the (map_of a s))) stations"
  from cohort_Some[OF assms] have all: "\<forall>s\<in>set stations. map_of a s \<noteq> None"
    and c: "c = map (\<lambda>s. (s, the (map_of a s) ! p)) ?ss" by blast+
  have "\<forall>s\<in>set ?ss. \<exists>seq. map_of a s = Some seq \<and> p < length seq"
    using all by auto
  from occupants_subset[OF this] have "set (map (\<lambda>s. the (map_of a s) ! p) ?ss) \<subseteq> set (concat (map snd a))" .
  moreover have "map snd c = map (\<lambda>s. the (map_of a s) ! p) ?ss"
    by (subst c) (simp add: comp_def)
  ultimately show ?thesis by simp
qed

lemma registered_ids:
  "at_most_one_more f0 f \<Longrightarrow> registered f0 a \<Longrightarrow> registered f a"
  by (simp add: registered_def at_most_one_more_ids)

lemma same_shape_keys: "same_shape a b \<Longrightarrow> map fst b = map fst a"
  by (simp add: same_shape_def)

lemma record_loop_total:
  assumes amo: "at_most_one_more f0 fws"
    and bp: "\<forall>x\<in>set xs. map_of bp (fst x) \<noteq> None"
    and cp: "\<forall>x\<in>set xs. map_of cp (fst x) \<noteq> None"
    and orig: "\<forall>x\<in>set xs. map_of orig (fst x) \<noteq> None"
    and ws: "snd ` set xs \<subseteq> fw_id ` set f0"
    and shape: "same_shape orig temp" and reg: "registered f0 temp"
  shows "\<exists>r. for_loop (record_rotation bp cp temp orig p) xs (fws, pc) = Some r \<and>
           at_most_one_more f0 (fst r)"
proof (rule for_loop_invariant[where I = "\<lambda>r. at_most_one_more f0 (fst r)"])
  show "at_most_one_more f0 (fst (fws, pc))" using amo by simp
next
  fix x and r :: "FactoryWorkerProfile list \<times> comparison"
  assume x: "x \<in> set xs" and inv: "at_most_one_more f0 (fst r)"
  obtain s w where xe: "x = (s, w)" by (cases x) auto
  obtain f c where re: "r = (f, c)" by (cases r) auto
  from inv re have amo': "at_most_one_more f0 f" by simp
  have w: "w \<in> fw_id ` set f"
    using ws x xe at_most_one_more_ids[OF amo'] by force
  from record_rotation_total[of bp s cp w f orig temp p c] bp cp orig x xe w shape
    registered_ids[OF amo' reg]
  obtain f' c' where rec: "record_rotation bp cp temp orig p (s, w) (f, c) = Some (f', c')"
    and alt: "f' = f \<or> (observations f w s = [] \<and> (\<exists>v. record_for w s v f = Some f'))"
    by fastforce
  have "at_most_one_more f0 f'"
    using alt amo' at_most_one_more_record[OF amo'] by blast
  with rec xe re
  show "\<exists>r'. record_rotation bp cp temp orig p x r = Some r' \<and> at_most_one_more f0 (fst r')"
    by simp
qed

lemma rotation_step_total:
  assumes env: "collector_env tws tasks bp orig f0"
    and c: "cohort orig p = Some c"
    and inv: "collector_inv orig f0 temp st"
  shows "\<exists>temp' st'. rotation_step tws tasks bp orig p c r (temp, st) = Some (temp', st') \<and>
           collector_inv orig f0 temp' st'"
proof -
  let ?ss = "map fst c" and ?ws = "rotated r (map snd c)"
  let ?placed = "zip ?ss ?ws"
  from env have orc: "oracle_defined tws tasks" and keys: "map fst orig = stations"
    and rego: "registered f0 orig" and bpall: "\<forall>s\<in>set stations. map_of bp s \<noteq> None"
    by (simp_all add: collector_env_def)
  from inv have shape: "same_shape orig temp" and reg: "registered f0 temp"
    and amo: "at_most_one_more f0 (st_workers st)" by (simp_all add: collector_inv_def)
  note cs = cohort_stations[OF c]
  have pos: "\<forall>s\<in>set ?ss. \<exists>seq. map_of temp s = Some seq \<and> p < length seq"
  proof
    fix s assume "s \<in> set ?ss"
    with cs(2) obtain seq where "map_of orig s = Some seq" "p < length seq" by blast
    with same_shape_lookup[OF shape this(1)] show "\<exists>seq. map_of temp s = Some seq \<and> p < length seq"
      by auto
  qed
  have len: "length ?ws = length ?ss" by simp
  from place_loop[OF cs(1) len pos] obtain temp' where
    place: "for_loop (place_worker p) ?placed temp = Some temp'" by blast
  have shape': "same_shape orig temp'"
    using same_shape_trans[OF shape place_loop_shape[OF place]] .
  have wsub: "set ?ws \<subseteq> fw_id ` set f0"
    using cohort_workers[OF c] rego by (simp add: registered_def)
  have "set (map snd ?placed) \<subseteq> set ?ws"
    by (auto dest: set_zip_rightD)
  with place_loop_workers[OF place] reg wsub have reg': "registered f0 temp'"
    unfolding registered_def by blast
  have keys': "map fst temp' = stations" using same_shape_keys[OF shape'] keys by simp
  from simulate_Some[OF orc, of temp'] keys' obtain cp where
    cp: "simulate_station_performance tws tasks temp' = Some cp"
    and cpall: "\<forall>s\<in>set stations. map_of cp s \<noteq> None" by auto
  have ssub: "set ?ss \<subseteq> set stations"
    using cohort_Some[OF c] by auto
  have fsts: "fst x \<in> set stations" if "x \<in> set ?placed" for x
  proof -
    from that have "(fst x, snd x) \<in> set ?placed" by simp
    then have "fst x \<in> set ?ss" by (rule set_zip_leftD)
    with ssub show ?thesis by blast
  qed
  have origall: "\<forall>s\<in>set stations. map_of orig s \<noteq> None"
    using stations_lookup[OF keys] .
  have snds: "snd ` set ?placed \<subseteq> fw_id ` set f0"
  proof
    fix w assume "w \<in> snd ` set ?placed"
    then obtain x where "x \<in> set ?placed" "w = snd x" by blast
    then have "(fst x, w) \<in> set ?placed" by simp
    then have "w \<in> set ?ws" by (rule set_zip_rightD)
    with wsub show "w \<in> fw_id ` set f0" by blast
  qed
  from record_loop_total[OF amo _ _ _ snds shape' reg', of bp cp p "[]"] fsts bpall cpall origall
  obtain x where rec: "for_loop (record_rotation bp cp temp' orig p) ?placed (st_workers st, []) = Some x"
    and amo': "at_most_one_more f0 (fst x)" by blast
  obtain fws' pc where xe: "x = (fws', pc)" by (cases x) auto
  have "rotation_step tws tasks bp orig p c r (temp, st) =
      Some (temp', st\<lparr>st_workers := fws',
                   st_log := st_log st @ [RotationEvent (st_cycle st) p r temp' pc fws'],
                   st_cycle := st_cycle st + 1\<rparr>)"
    unfolding rotation_step_def Let_def prod.case
    using place cp rec xe by simp
  moreover have "collector_inv orig f0 temp'
      (st\<lparr>st_workers := fws',
         st_log := st_log st @ [RotationEvent (st_cycle st) p r temp' pc fws'],
         st_cycle := st_cycle st + 1\<rparr>)"
    using shape' reg' amo' xe by (simp add: collector_inv_def)
  ultimately show ?thesis by blast
qed

lemma rotation_loop_total:
  assumes env: "collector_env tws tasks bp orig f0"
    and c: "cohort orig p = Some c"
    and inv: "collector_inv orig f0 temp st"
  shows "\<exists>r. for_loop (rotation_step tws tasks bp orig p c) rs (temp, st) = Some r \<and>
           collector_inv orig f0 (fst r) (snd r)"
proof (rule for_loop_invariant[where I = "\<lambda>r. collector_inv orig f0 (fst r) (snd r)"])
  show "collector_inv orig f0 (fst (temp, st)) (snd (temp, st))" using inv by simp
next
  fix x and s :: "assignment \<times> collector"
  assume "collector_inv orig f0 (fst s) (snd s)"
  from rotation_step_total[OF env c this, of x]
  show "\<exists>s'. rotation_step tws tasks bp orig p c x s = Some s' \<and>
          collector_inv orig f0 (fst s') (snd s')"
    by auto
qed

lemma check_stations_total:
  "\<forall>s\<in>set ss. map_of a s \<noteq> None \<Longrightarrow> \<exists>b. check_stations fws a p ss = Some b"
  by (induction ss) auto

lemma best_loop_total:
  assumes "set W \<subseteq> fw_id ` set fws"
  shows "\<exists>b. for_loop (best_step fws assigned s) W (None, None) = Some b \<and>
           (\<forall>w. fst b = Some w \<longrightarrow> w \<in> set W)"
proof (rule for_loop_invariant[where I = "\<lambda>b. \<forall>w. fst b = Some w \<longrightarrow> w \<in> set W"])
  show "\<forall>w. fst (None :: worker_id option, None :: real option) = Some w \<longrightarrow> w \<in> set W" by simp
next
  fix x and b :: best
  assume x: "x \<in> set W" and inv: "\<forall>w. fst b = Some w \<longrightarrow> w \<in> set W"
  with assms obtain fw where "map_of (factory_worker_dict fws) x = Some fw"
    using factory_lookup_None[of fws x] by auto
  with x inv show "\<exists>b'. best_step fws assigned s x b = Some b' \<and> (\<forall>w. fst b' = Some w \<longrightarrow> w \<in> set W)"
    by (cases b) (simp add: best_step_def Let_def)
qed

lemma optimize_station_total:
  assumes W: "set W \<subseteq> fw_id ` set fws" and seq: "map_of oa s = Some seq" and p: "p < length seq"
  shows "\<exists>st'. optimize_station fws p W s (oa, asg, det) = Some st' \<and> same_shape oa (fst st') \<and>
           set (concat (map snd (fst st'))) \<subseteq> set (concat (map snd oa)) \<union> set W"
proof -
  from best_loop_total[OF W, of asg s] obtain b where
    b: "for_loop (best_step fws asg s) W (None, None) = Some b"
    and bW: "\<forall>w. fst b = Some w \<longrightarrow> w \<in> set W" by blast
  obtain bw bs where be: "b = (bw, bs)" by (cases b) auto
  have idx: "py_index seq (int p) = Some (seq ! p)" using p by (simp add: py_index_def)
  show ?thesis
  proof (cases "\<exists>w sc. bw = Some w \<and> bs = Some sc \<and> w \<noteq> []")
    case True
    then obtain w sc where w: "bw = Some w" "bs = Some sc" "w \<noteq> []" by blast
    from dict_modify_eq_Some[OF seq, of "\<lambda>seq. seq[p := w]"] obtain oa' where
      dm: "dict_modify s (\<lambda>seq. seq[p := w]) oa = Some oa'" by blast
    have sh: "same_shape oa oa'" by (rule dict_modify_shape[OF dm]) simp
    have "set (concat (map snd oa')) \<subseteq> set (concat (map snd oa)) \<union> set (seq[p := w])"
      by (rule dict_modify_workers[OF dm seq])
    moreover have "set (seq[p := w]) \<subseteq> insert w (set seq)" by (rule set_update_subset_insert)
    moreover have "set seq \<subseteq> set (concat (map snd oa))"
    proof -
      have "(s, seq) \<in> set oa" by (rule map_of_SomeD[OF seq])
      then have "seq \<in> set (map snd oa)" by (simp add: image_iff) (rule bexI[of _ "(s, seq)"], simp_all)
      then show ?thesis by (simp only: set_concat) blast
    qed
    moreover have "w \<in> set W" using bW be w by simp
    ultimately have sub: "set (concat (map snd oa')) \<subseteq> set (concat (map snd oa)) \<union> set W" by blast
    have "optimize_station fws p W s (oa, asg, det) =
        Some (oa', insert w asg, dict_set s (seq ! p, w, sc) det)"
      unfolding optimize_station_def prod.case using b be w seq idx dm by simp
    with sh sub show ?thesis by simp
  next
    case False
    then have "optimize_station fws p W s (oa, asg, det) = Some (oa, asg, det)"
      unfolding optimize_station_def prod.case using b be
      by (cases bw; cases bs) auto
    then show ?thesis by simp
  qed
qed

lemma optimize_position_total:
  assumes keys: "\<forall>s\<in>set stations. map_of a s \<noteq> None" and reg: "registered fws a"
  shows "\<exists>a' det. optimize_position fws a p = Some (a', det) \<and> same_shape a a' \<and>
           set (concat (map snd a')) \<subseteq> set (concat (map snd a))"
proof -
  from cohort_eq[OF keys, of p] obtain c where c: "cohort a p = Some c" by blast
  note cs = cohort_stations[OF c]
  have W: "set (map snd c) \<subseteq> set (concat (map snd a))" by (rule cohort_workers[OF c])
  with reg have Wr: "set (map snd c) \<subseteq> fw_id ` set fws" unfolding registered_def by blast
  show ?thesis
  proof (cases "c = []")
    case True
    then show ?thesis using c by (simp add: optimize_position_def)
  next
    case False
    let ?I = "\<lambda>st :: assignment \<times> worker_id set \<times> details.
        same_shape a (fst st) \<and> set (concat (map snd (fst st))) \<subseteq> set (concat (map snd a))"
    have "\<exists>st. for_loop (optimize_station fws p (map snd c)) (map fst c) (a, {}, []) = Some st \<and> ?I st"
    proof (rule for_loop_invariant[where I = ?I])
      show "?I (a, {}, [])" by simp
    next
      fix x and st :: "assignment \<times> worker_id set \<times> details"
      assume x: "x \<in> set (map fst c)" and inv: "?I st"
      obtain oa asg det where ste: "st = (oa, asg, det)" by (cases st) auto
      from cs(2) x obtain seq where seq: "map_of a x = Some seq" "p < length seq" by blast
      from same_shape_lookup[OF _ seq(1), of oa] inv ste obtain seq' where
        seq': "map_of oa x = Some seq'" "p < length seq'" using seq(2) by auto
      from optimize_station_total[OF Wr seq', of asg det] obtain st' where
        st': "optimize_station fws p (map snd c) x (oa, asg, det) = Some st'"
        "same_shape oa (fst st')"
        "set (concat (map snd (fst st'))) \<subseteq> set (concat (map snd oa)) \<union> set (map snd c)"
        by blast
      have "same_shape a (fst st')" using inv ste st'(2) same_shape_trans by auto
      moreover have "set (concat (map snd oa)) \<subseteq> set (concat (map snd a))"
        using inv ste by simp
      then have "set (concat (map snd (fst st'))) \<subseteq> set (concat (map snd a))"
        using st'(3) W by blast
      ultimately show "\<exists>s'. optimize_station fws p (map snd c) x st = Some s' \<and> ?I s'"
        using st'(1) ste by simp
    qed
    then obtain st where st: "for_loop (optimize_station fws p (map snd c)) (map fst c) (a, {}, []) = Some st"
      and I: "?I st" by blast
    have "optimize_position fws a p = Some (fst st, snd (snd st))"
      using c False st by (simp add: optimize_position_def)
    with I show ?thesis by blast
  qed
qed

lemma position_step_total:
  assumes env: "collector_env tws tasks bp orig f0"
    and inv: "collector_inv orig f0 cur st"
  shows "\<exists>cur' st'. position_step tws tasks bp orig m p (cur, st) = Some (cur', st') \<and>
           collector_inv orig f0 cur' st'"
proof -
  from env have keys: "map fst orig = stations" by (simp add: collector_env_def)
  have origall: "\<forall>s\<in>set stations. map_of orig s \<noteq> None" using stations_lookup[OF keys] .
  from check_stations_total[OF origall, of "st_workers st" p] obtain needs where
    needs: "check_position_needs_testing (st_workers st) orig p = Some needs"
    by (auto simp: check_position_needs_testing_def)
  from cohort_eq[OF origall, of p] obtain c where c: "cohort orig p = Some c" by blast
  show ?thesis
  proof (cases "needs \<and> c \<noteq> []")
    case False
    then consider "\<not> needs" | "needs" "c = []" by blast
    then show ?thesis
    proof cases
      case 1
      then have "position_step tws tasks bp orig m p (cur, st) =
          Some (cur, st\<lparr>st_log := st_log st @ [SkipEvent p cur]\<rparr>)"
        unfolding position_step_def prod.case using needs by simp
      moreover have "collector_inv orig f0 cur (st\<lparr>st_log := st_log st @ [SkipEvent p cur]\<rparr>)"
        using inv by (simp add: collector_inv_def)
      ultimately show ?thesis by blast
    next
      case 2
      then have "position_step tws tasks bp orig m p (cur, st) = Some (cur, st)"
        unfolding position_step_def prod.case using needs c by simp
      with inv show ?thesis by blast
    qed
  next
    case True
    from rotation_loop_total[OF env c inv, of "[0..<length c]"] obtain r where
      r: "for_loop (rotation_step tws tasks bp orig p c) [0..<length c] (cur, st) = Some r"
      and rinv: "collector_inv orig f0 (fst r) (snd r)" by blast
    obtain temp st' where re: "r = (temp, st')" by (cases r) auto
    from rinv re have amo: "at_most_one_more f0 (st_workers st')" by (simp add: collector_inv_def)
    from inv have shape: "same_shape orig cur" and reg: "registered f0 cur"
      by (simp_all add: collector_inv_def)
    show ?thesis
    proof (cases "int p < int m - 1")
      case False
      then have "position_step tws tasks bp orig m p (cur, st) = Some (cur, st')"
        unfolding position_step_def prod.case using needs c True r re by simp
      moreover have "collector_inv orig f0 cur st'"
        using shape reg amo by (simp add: collector_inv_def)
      ultimately show ?thesis by blast
    next
      case lt: True
      have curall: "\<forall>s\<in>set stations. map_of cur s \<noteq> None"
        using stations_lookup[of cur] same_shape_keys[OF shape] keys by simp
      from optimize_position_total[OF curall registered_ids[OF amo reg], of p]
      obtain cur' det where opt: "optimize_position (st_workers st') cur p = Some (cur', det)"
        and sh: "same_shape cur cur'"
        and sub: "set (concat (map snd cur')) \<subseteq> set (concat (map snd cur))" by blast
      have "position_step tws tasks bp orig m p (cur, st) =
          Some (cur', st'\<lparr>st_log := st_log st' @ [OptimizationEvent p cur' det (st_workers st')]\<rparr>)"
        unfolding position_step_def prod.case using needs c True r re lt opt by simp
      moreover have "collector_inv orig f0 cur'
          (st'\<lparr>st_log := st_log st' @ [OptimizationEvent p cur' det (st_workers st')]\<rparr>)"
        using same_shape_trans[OF shape sh] sub reg amo
        by (auto simp: collector_inv_def registered_def)
      ultimately show ?thesis by blast
    qed
  qed
qed

lemma py_max_Some: "xs \<noteq> [] \<Longrightarrow> \<exists>m. py_max xs = Some m"
  by (cases xs) simp_all

lemma rotation_phase_total:
  assumes env: "collector_env tws tasks bp orig f0"
    and amo: "at_most_one_more f0 (st_workers st)"
  shows "\<exists>cur st'. rotation_phase tws tasks bp orig st = Some (cur, st') \<and>
           collector_inv orig f0 cur st'"
proof -
  from env have keys: "map fst orig = stations" and rego: "registered f0 orig"
    by (simp_all add: collector_env_def)
  have "orig \<noteq> []" using keys by (auto simp: stations_eq)
  then obtain m where m: "py_max (map (\<lambda>item. int (length (snd item))) orig) = Some m"
    using py_max_Some[of "map (\<lambda>item. int (length (snd item))) orig"] by auto
  have inv: "collector_inv orig f0 orig st" using rego amo by (simp add: collector_inv_def)
  have "\<exists>r. for_loop (position_step tws tasks bp orig (nat m)) [0..<nat m] (orig, st) = Some r \<and>
          collector_inv orig f0 (fst r) (snd r)"
  proof (rule for_loop_invariant[where I = "\<lambda>r. collector_inv orig f0 (fst r) (snd r)"])
    show "collector_inv orig f0 (fst (orig, st)) (snd (orig, st))" using inv by simp
  next
    fix x and s :: "assignment \<times> collector"
    assume "collector_inv orig f0 (fst s) (snd s)"
    from position_step_total[OF env this, of "nat m" x]
    show "\<exists>s'. position_step tws tasks bp orig (nat m) x s = Some s' \<and>
            collector_inv orig f0 (fst s') (snd s')" by auto
  qed
  then show ?thesis using m by (auto simp: rotation_phase_def)
qed

subsection \<open>The gap filler runs to its end\<close>

lemma at_most_one_more_trans:
  assumes "at_most_one_more f0 f" "at_most_one_more f f'"
  shows "at_most_one_more f0 f'"
proof -
  have ids: "map fw_id f' = map fw_id f0" using assms by (simp add: at_most_one_more_def)
  have "observations f' w s = observations f0 w s \<or>
        (observations f0 w s = [] \<and> length (observations f' w s) = 1)" for w s
  proof -
    have a: "observations f w s = observations f0 w s \<or>
        (observations f0 w s = [] \<and> length (observations f w s) = 1)"
      using assms(1) unfolding at_most_one_more_def by blast
    have b: "observations f' w s = observations f w s \<or>
        (observations f w s = [] \<and> length (observations f' w s) = 1)"
      using assms(2) unfolding at_most_one_more_def by blast
    from a b show ?thesis by auto
  qed
  with ids show ?thesis unfolding at_most_one_more_def by blast
qed

lemma at_most_one_more_nonempty:
  assumes "at_most_one_more f f'" "observations f w s \<noteq> []"
  shows "observations f' w s = observations f w s"
proof -
  have "observations f' w s = observations f w s \<or>
        (observations f w s = [] \<and> length (observations f' w s) = 1)"
    using assms(1) unfolding at_most_one_more_def by blast
  with assms(2) show ?thesis by blast
qed

lemma at_most_one_more_length:
  assumes "at_most_one_more f f'"
  shows "length (observations f' w s) \<le> max 1 (length (observations f w s))"
proof -
  have "observations f' w s = observations f w s \<or>
        (observations f w s = [] \<and> length (observations f' w s) = 1)"
    using assms(1) unfolding at_most_one_more_def by blast
  then show ?thesis by auto
qed

lemma find_current_key:
  "find_current wid a = Some (cs, cp) \<Longrightarrow> map_of a cs \<noteq> None"
  by (induction a) (auto split: if_splits)

lemma lookup_keys: "map fst b = map fst a \<Longrightarrow> map_of a k \<noteq> None \<Longrightarrow> map_of b k \<noteq> None"
proof -
  assume k: "map fst b = map fst a" and m: "map_of a k \<noteq> None"
  from m have "k \<in> fst ` set a" by (simp add: map_of_eq_None_iff)
  then have "k \<in> set (map fst a)" by simp
  then have "k \<in> set (map fst b)" using k by simp
  then have "k \<in> fst ` set b" by simp
  then show ?thesis by (simp add: map_of_eq_None_iff)
qed

lemma probe_assignment_total:
  assumes s: "map_of a s \<noteq> None" and cur: "cur = find_current wid a"
  shows "\<exists>t. probe_assignment wid cur s a = Some t"
proof -
  have "\<exists>temp1. (case cur of
            None \<Rightarrow> Some a
          | Some (current_station, current_position) \<Rightarrow>
              if current_station \<noteq> 0 then
                do {
                  seq \<leftarrow> map_of a current_station;
                  if wid \<in> set seq
                  then dict_modify current_station (remove1 wid) a
                  else Some a
                }
              else Some a) = Some temp1 \<and> map fst temp1 = map fst a"
  proof (cases cur)
    case None
    then show ?thesis by simp
  next
    case (Some cc)
    obtain cs cp where cc: "cc = (cs, cp)" by (cases cc) auto
    from find_current_key[of wid a cs cp] cur Some cc obtain seq where
      seq: "map_of a cs = Some seq" by auto
    from dict_modify_eq_Some[OF seq, of "remove1 wid"] obtain d' where
      "dict_modify cs (remove1 wid) a = Some d'" "map fst d' = map fst a" by blast
    then show ?thesis using Some cc seq by simp
  qed
  then obtain temp1 where t1: "(case cur of
            None \<Rightarrow> Some a
          | Some (current_station, current_position) \<Rightarrow>
              if current_station \<noteq> 0 then
                do {
                  seq \<leftarrow> map_of a current_station;
                  if wid \<in> set seq
                  then dict_modify current_station (remove1 wid) a
                  else Some a
                }
              else Some a) = Some temp1" and keys: "map fst temp1 = map fst a" by blast
  from lookup_keys[OF keys s] obtain seq where seq: "map_of temp1 s = Some seq" by auto
  have dm: "\<exists>d'. dict_modify s f temp1 = Some d'" for f
    using dict_modify_eq_Some[OF seq, of f] by blast
  have "\<exists>t. (case cur of
         None \<Rightarrow> dict_modify s (\<lambda>seq. seq @ [wid]) temp1
       | Some (current_station, current_position) \<Rightarrow>
           if current_position < length seq
           then dict_modify s
                  (\<lambda>seq. take current_position seq @ [wid] @ drop current_position seq) temp1
           else dict_modify s (\<lambda>seq. seq @ [wid]) temp1) = Some t"
    using dm by (cases cur) (auto split: prod.splits)
  then show ?thesis
    unfolding probe_assignment_def using t1 seq by (simp del: append_Cons append_Nil)
qed

lemma py_index_stations:
  assumes "s \<in> set stations" "6 \<le> length tasks"
  shows "\<exists>t. py_index tasks (s - 1) = Some t \<and> t \<in> set tasks"
proof -
  from assms(1) have "1 \<le> s" "s \<le> 6" by (auto simp: stations_eq)
  then have "0 \<le> s - 1" "s - 1 < int (length tasks)" using assms(2) by simp_all
  then have "py_index tasks (s - 1) = Some (tasks ! nat (s - 1))" "nat (s - 1) < length tasks"
    by (simp_all add: py_index_def)
  then show ?thesis using nth_mem by auto
qed

lemma probe_station_total:
  assumes orc: "oracle_defined tws tasks"
    and tw: "wid \<in> tw_id ` set tws"
    and fw: "wid \<in> fw_id ` set (st_workers st)"
    and bp: "map_of bp s \<noteq> None"
    and a: "map_of a s \<noteq> None"
    and s: "s \<in> set stations"
  shows "\<exists>st' v. probe_station tws tasks bp a wid (find_current wid a) s st = Some st' \<and>
           record_for wid s v (st_workers st) = Some (st_workers st')"
proof -
  from probe_assignment_total[OF a refl, of wid] obtain t where
    t: "probe_assignment wid (find_current wid a) s a = Some t" by blast
  from tw obtain true_worker where twl: "map_of (dict_from tw_id tws) wid = Some true_worker"
    using dict_from_None[of tw_id tws wid] by auto
  then have twin: "true_worker \<in> set tws" using dict_from_Some by fastforce
  from orc have len: "6 \<le> length tasks" by (simp add: oracle_defined_def)
  from py_index_stations[OF s len] obtain task where
    task: "py_index tasks (s - 1) = Some task" "task \<in> set tasks" by blast
  have "fatigue_base true_worker + 5 \<noteq> 0" "delivery_time task \<noteq> 0"
    using orc twin task(2) by (simp_all add: oracle_defined_def)
  from calculate_performance_Some[OF s this, of "fatigue_cost task"] obtain ind where
    ind: "calculate_performance true_worker s (delivery_time task) (fatigue_cost task) = Some ind"
    by blast
  from bp obtain base where base: "map_of bp s = Some base" by auto
  define v where "v = (if base > 0 then ind / base * 100 + 100 else 100)"
  from fw obtain fws' where rec: "record_for wid s v (st_workers st) = Some fws'"
    using record_for_Some_iff by blast
  have "probe_station tws tasks bp a wid (find_current wid a) s st =
      Some (st\<lparr>st_workers := fws',
               st_log := st_log st @ [IncompleteFixEvent wid s t v fws']\<rparr>)"
    unfolding probe_station_def Let_def using t twl task(1) ind base rec[unfolded v_def]
    by (simp add: v_def)
  with rec show ?thesis by force
qed

lemma process_worker_total:
  assumes orc: "oracle_defined tws tasks"
    and tw: "wid \<in> tw_id ` set tws"
    and fw: "wid \<in> fw_id ` set (st_workers st)"
    and bp: "\<forall>s\<in>set stations. map_of bp s \<noteq> None"
    and a: "\<forall>s\<in>set stations. map_of a s \<noteq> None"
  shows "\<exists>st'. process_worker tws tasks bp a wid st = Some st' \<and>
           at_most_one_more (st_workers st) (st_workers st') \<and>
           (\<forall>s\<in>set stations. observations (st_workers st') wid s \<noteq> [])"
proof -
  let ?f = "st_workers st"
  from fw obtain worker where worker: "map_of (factory_worker_dict ?f) wid = Some worker"
    using factory_lookup_None[of ?f wid] by auto
  define missing where "missing = filter (\<lambda>s. \<not> has_data_for_station worker s) stations"
  have obs: "observations ?f wid s = profile_obs worker s" for s
    using worker by (simp add: observations_def)
  have dm: "distinct missing" by (simp add: missing_def distinct_stations)
  let ?I = "\<lambda>pre (st' :: collector). at_most_one_more ?f (st_workers st') \<and>
      (\<forall>s\<in>set pre. observations (st_workers st') wid s \<noteq> []) \<and>
      (\<forall>s. s \<notin> set pre \<longrightarrow> observations (st_workers st') wid s = observations ?f wid s)"
  have "\<exists>st'. for_loop (probe_station tws tasks bp a wid (find_current wid a)) missing st = Some st'
          \<and> ?I missing st'"
  proof (rule for_loop_invariant_prefix[where I = ?I])
    show "?I [] st" by simp
  next
    fix pre x post and s1 :: collector
    assume split: "missing = pre @ x # post" and inv: "?I pre s1"
    from split dm have xpre: "x \<notin> set pre" by auto
    from split have xm: "x \<in> set missing" by simp
    then have xs: "x \<in> set stations" and nodata: "\<not> has_data_for_station worker x"
      by (simp_all add: missing_def)
    from inv have amo: "at_most_one_more ?f (st_workers s1)" by blast
    have fw1: "wid \<in> fw_id ` set (st_workers s1)"
      using fw at_most_one_more_ids[OF amo] by simp
    from probe_station_total[OF orc tw fw1 _ _ xs, of bp a] bp a xs obtain s2 v where
      probe: "probe_station tws tasks bp a wid (find_current wid a) x s1 = Some s2"
      and rec: "record_for wid x v (st_workers s1) = Some (st_workers s2)" by blast
    have empty: "observations (st_workers s1) wid x = []"
      using inv xpre nodata obs[of x] by (simp add: has_data_iff)
    have amo2: "at_most_one_more ?f (st_workers s2)"
      by (rule at_most_one_more_record[OF amo empty rec])
    note ro = record_for_observations[OF rec]
    have "\<forall>s\<in>set (pre @ [x]). observations (st_workers s2) wid s \<noteq> []"
      using inv by (simp add: ro)
    moreover have "\<forall>s. s \<notin> set (pre @ [x]) \<longrightarrow>
        observations (st_workers s2) wid s = observations ?f wid s"
      using inv by (simp add: ro)
    ultimately show "\<exists>s'. probe_station tws tasks bp a wid (find_current wid a) x s1 = Some s' \<and>
        ?I (pre @ [x]) s'"
      using probe amo2 by blast
  qed
  then obtain st' where loop: "for_loop (probe_station tws tasks bp a wid (find_current wid a))
        missing st = Some st'" and I: "?I missing st'" by blast
  have run: "process_worker tws tasks bp a wid st = Some st'"
    unfolding process_worker_def Let_def using worker loop by (simp add: missing_def)
  have "observations (st_workers st') wid s \<noteq> []" if "s \<in> set stations" for s
  proof (cases "s \<in> set missing")
    case True
    with I show ?thesis by blast
  next
    case False
    with that have "has_data_for_station worker s" by (simp add: missing_def)
    then have "observations ?f wid s \<noteq> []" by (simp add: obs has_data_iff)
    with I False show ?thesis by simp
  qed
  with run I show ?thesis by blast
qed

lemma gap_filler_total:
  assumes orc: "oracle_defined tws tasks"
    and tw: "fw_id ` set (st_workers st) \<subseteq> tw_id ` set tws"
    and keys: "map fst a = stations"
    and dist: "distinct (map fw_id (st_workers st))"
  shows "\<exists>st'. collect_incomplete_worker_data_ui tws tasks a st = Some (a, st') \<and>
           at_most_one_more (st_workers st) (st_workers st') \<and>
           (\<forall>w\<in>set (st_workers st). \<forall>s\<in>set stations. observations (st_workers st') (fw_id w) s \<noteq> [])"
proof -
  let ?f = "st_workers st"
  let ?ws = "incomplete_workers ?f"
  have complete: "\<forall>s\<in>set stations. observations ?f (fw_id w) s \<noteq> []"
    if "w \<in> set ?f" "fw_id w \<notin> set ?ws" for w
  proof -
    from that have "\<not> get_data_completeness w < 100"
      by (auto simp: incomplete_workers_def)
    then have "\<forall>s\<in>set stations. profile_obs w s \<noteq> []" by (simp add: completeness_iff)
    then show ?thesis using observations_distinct[OF dist that(1)] by simp
  qed
  show ?thesis
  proof (cases "?ws = []")
    case True
    then have "collect_incomplete_worker_data_ui tws tasks a st = Some (a, st)"
      by (simp add: collect_incomplete_worker_data_ui_def)
    moreover have "\<forall>w\<in>set ?f. \<forall>s\<in>set stations. observations ?f (fw_id w) s \<noteq> []"
      using complete True by simp
    ultimately show ?thesis by auto
  next
    case False
    from simulate_Some[OF orc, of a] keys obtain bp where
      bp: "simulate_station_performance tws tasks a = Some bp"
      and bpall: "\<forall>s\<in>set stations. map_of bp s \<noteq> None" by auto
    have aall: "\<forall>s\<in>set stations. map_of a s \<noteq> None" by (rule stations_lookup[OF keys])
    have wsub: "set ?ws \<subseteq> fw_id ` set ?f" by (auto simp: incomplete_workers_def)
    let ?I = "\<lambda>pre (st' :: collector). at_most_one_more ?f (st_workers st') \<and>
        (\<forall>w\<in>set pre. \<forall>s\<in>set stations. observations (st_workers st') w s \<noteq> [])"
    have "\<exists>st'. for_loop (process_worker tws tasks bp a) ?ws st = Some st' \<and> ?I ?ws st'"
    proof (rule for_loop_invariant_prefix[where I = ?I])
      show "?I [] st" by simp
    next
      fix pre x post and s1 :: collector
      assume split: "incomplete_workers ?f = pre @ x # post" and inv: "?I pre s1"
      from inv have amo: "at_most_one_more ?f (st_workers s1)" by blast
      have "x \<in> set ?ws" using split by simp
      with wsub have xf: "x \<in> fw_id ` set ?f" by blast
      then have x1: "x \<in> fw_id ` set (st_workers s1)" using at_most_one_more_ids[OF amo] by simp
      from xf tw have xt: "x \<in> tw_id ` set tws" by blast
      from process_worker_total[OF orc xt x1 bpall aall] obtain s2 where
        run: "process_worker tws tasks bp a x s1 = Some s2"
        and step: "at_most_one_more (st_workers s1) (st_workers s2)"
        and full: "\<forall>s\<in>set stations. observations (st_workers s2) x s \<noteq> []" by blast
      have amo2: "at_most_one_more ?f (st_workers s2)"
        by (rule at_most_one_more_trans[OF amo step])
      have "\<forall>w\<in>set (pre @ [x]). \<forall>s\<in>set stations. observations (st_workers s2) w s \<noteq> []"
      proof (intro ballI)
        fix w s assume w: "w \<in> set (pre @ [x])" and s: "s \<in> set stations"
        show "observations (st_workers s2) w s \<noteq> []"
        proof (cases "w = x")
          case True
          with full s show ?thesis by blast
        next
          case False
          with w have "w \<in> set pre" by simp
          with inv s have ne: "observations (st_workers s1) w s \<noteq> []" by blast
          from at_most_one_more_nonempty[OF step ne] ne show ?thesis by simp
        qed
      qed
      with run amo2 show "\<exists>s'. process_worker tws tasks bp a x s1 = Some s' \<and> ?I (pre @ [x]) s'"
        by blast
    qed
    then obtain st' where loop: "for_loop (process_worker tws tasks bp a) ?ws st = Some st'"
      and I: "?I ?ws st'" by blast
    have run: "collect_incomplete_worker_data_ui tws tasks a st = Some (a, st')"
      unfolding collect_incomplete_worker_data_ui_def Let_def using False bp loop by simp
    have "observations (st_workers st') (fw_id w) s \<noteq> []"
      if w: "w \<in> set ?f" and s: "s \<in> set stations" for w s
    proof (cases "fw_id w \<in> set ?ws")
      case True
      with I s show ?thesis by blast
    next
      case False
      from complete[OF w False] s have ne: "observations ?f (fw_id w) s \<noteq> []" by blast
      from I have "at_most_one_more ?f (st_workers st')" by blast
      from at_most_one_more_nonempty[OF this ne] ne show ?thesis by simp
    qed
    with run I show ?thesis by blast
  qed
qed

subsection \<open>A full run\<close>

lemma completeness_full:
  "get_data_completeness w = 100 \<longleftrightarrow> (\<forall>s\<in>set stations. profile_obs w s \<noteq> [])"
proof -
  let ?n = "length (filter (has_data_for_station w) stations)"
  have "?n \<le> 6" using length_filter_le[of "has_data_for_station w" stations]
    by (simp add: stations_eq del: length_filter_le)
  then have "get_data_completeness w \<le> 100"
    by (simp add: get_data_completeness_def WSTATION_def)
  then have "get_data_completeness w = 100 \<longleftrightarrow> \<not> get_data_completeness w < 100" by auto
  then show ?thesis by (simp add: completeness_iff)
qed

lemma gap_filler_when_complete:
  "(if incomplete_workers (st_workers st) \<noteq> []
    then collect_incomplete_worker_data_ui tws tasks a st else Some (a, st)) =
   collect_incomplete_worker_data_ui tws tasks a st"
  by (simp add: collect_incomplete_worker_data_ui_def)

lemma collector_run:
  assumes keys: "map fst initial = stations"
    and reg: "registered fws initial"
    and tw: "fw_id ` set fws \<subseteq> tw_id ` set tws"
    and orc: "oracle_defined tws tasks"
    and dist: "distinct (map fw_id fws)"
  shows "\<exists>bp fws1 cur st2 final.
     simulate_station_performance tws tasks initial = Some bp \<and>
     base_phase initial fws = Some fws1 \<and>
     rotation_phase tws tasks bp initial
       \<lparr>st_workers = fws1, st_log = [BaseEvent initial bp fws1], st_cycle = 2\<rparr> = Some (cur, st2) \<and>
     systematic_data_collection_ui tws fws tasks initial = Some (cur, final) \<and>
     map fw_id fws1 = map fw_id fws \<and>
     (\<forall>w s. observations fws1 w s = observations fws w s @ replicate (base_count initial w s) 100 \<or>
            observations fws1 w s = observations fws w s) \<and>
     at_most_one_more fws1 (st_workers st2) \<and>
     at_most_one_more (st_workers st2) (st_workers final) \<and>
     (\<forall>w\<in>set (st_workers final). \<forall>s\<in>set stations. profile_obs w s \<noteq> [])"
proof -
  from simulate_Some[OF orc, of initial] keys obtain bp where
    bp: "simulate_station_performance tws tasks initial = Some bp"
    and bpall: "\<forall>s\<in>set stations. map_of bp s \<noteq> None" by auto
  from base_phase_obs[of initial fws] obtain fws1 where
    base: "base_phase initial fws = Some fws1" and ids1: "map fw_id fws1 = map fw_id fws"
    and obs1: "\<forall>w s. observations fws1 w s =
        (if w \<in> fw_id ` set fws
         then observations fws w s @ replicate (base_count initial w s) 100
         else observations fws w s)" by blast
  have obs1': "\<forall>w s. observations fws1 w s = observations fws w s @ replicate (base_count initial w s) 100 \<or>
            observations fws1 w s = observations fws w s"
    using obs1 by simp
  let ?st1 = "\<lparr>st_workers = fws1, st_log = [BaseEvent initial bp fws1], st_cycle = 2\<rparr>"
  have reg1: "registered fws1 initial"
    using reg ids_set[OF ids1] by (simp add: registered_def)
  have env: "collector_env tws tasks bp initial fws1"
    using orc keys reg1 bpall by (simp add: collector_env_def)
  have "at_most_one_more fws1 (st_workers ?st1)" by simp
  from rotation_phase_total[OF env this] obtain cur st2 where
    rot: "rotation_phase tws tasks bp initial ?st1 = Some (cur, st2)"
    and inv: "collector_inv initial fws1 cur st2" by blast
  from inv have shape: "same_shape initial cur" and amo12: "at_most_one_more fws1 (st_workers st2)"
    by (simp_all add: collector_inv_def)
  have ids2: "map fw_id (st_workers st2) = map fw_id fws"
    using amo12 ids1 by (simp add: at_most_one_more_def)
  have keys2: "map fst cur = stations" using same_shape_keys[OF shape] keys by simp
  have tw2: "fw_id ` set (st_workers st2) \<subseteq> tw_id ` set tws"
    using tw ids_set[OF ids2] by simp
  have dist2: "distinct (map fw_id (st_workers st2))" using dist ids2 by simp
  from gap_filler_total[OF orc tw2 keys2 dist2] obtain final where
    gap: "collect_incomplete_worker_data_ui tws tasks cur st2 = Some (cur, final)"
    and amo23: "at_most_one_more (st_workers st2) (st_workers final)"
    and full: "\<forall>w\<in>set (st_workers st2). \<forall>s\<in>set stations.
        observations (st_workers final) (fw_id w) s \<noteq> []" by blast
  have run: "systematic_data_collection_ui tws fws tasks initial = Some (cur, final)"
    unfolding systematic_data_collection_ui_def Let_def
    using bp base rot gap by (simp add: gap_filler_when_complete)
  have ids3: "map fw_id (st_workers final) = map fw_id fws"
    using amo23 ids2 by (simp add: at_most_one_more_def)
  have dist3: "distinct (map fw_id (st_workers final))" using dist ids3 by simp
  have "profile_obs w s \<noteq> []" if w: "w \<in> set (st_workers final)" and s: "s \<in> set stations" for w s
  proof -
    have "fw_id w \<in> fw_id ` set (st_workers final)" using w by simp
    then have "fw_id w \<in> fw_id ` set (st_workers st2)"
      using ids_set[OF ids3] ids_set[OF ids2] by simp
    then obtain w2 where "w2 \<in> set (st_workers st2)" "fw_id w2 = fw_id w" by auto
    with full s have "observations (st_workers final) (fw_id w) s \<noteq> []" by metis
    then show ?thesis using observations_distinct[OF dist3 w] by simp
  qed
  with bp base rot run ids1 obs1' amo12 amo23 show ?thesis by blast
qed

subsection \<open>Station totals are not negative\<close>








subsection \<open>The energy average in the range of a double\<close>

lemma double_limit_large: "16 < double_limit"
  by (simp add: double_limit_def)

lemma to_double_Finite: "- double_limit < r \<Longrightarrow> r < double_limit \<Longrightarrow> to_double r = Finite r"
  by (simp add: to_double_def)



lemma energy_double_in_range:
  assumes fb: "fatigue_base w > - 5" "fatigue_base w + 5 < double_limit"
    and fc: "0 \<le> fc" and T: "1 \<le> T"
    and x: "fc / (fatigue_base w + 5) * T < double_limit"
  shows "calculate_energy_avg_double w fc T =
     Some (Finite (if fc / (fatigue_base w + 5) * T < 0.001 then 1
                   else (1 - exp (- (fc / (fatigue_base w + 5) * T))) /
                        (fc / (fatigue_base w + 5) * T)))"
proof -
  define k where "k = fc / (fatigue_base w + 5)"
  have L: "0 < double_limit" using double_limit_large by simp
  have k0: "0 \<le> k" using fb(1) fc by (simp add: k_def)
  have xk: "k * T < double_limit" using x unfolding k_def .
  have kT0: "0 \<le> k * T" using k0 T by simp
  have "k * 1 \<le> k * T" using k0 T by (intro mult_left_mono) simp_all
  then have kL: "k < double_limit" using xk by simp
  have d: "float_add (Finite (fatigue_base w)) (Finite 5) = Finite (fatigue_base w + 5)"
    using fb L by (simp add: to_double_Finite)
  have "to_double k = Finite k" using k0 kL L by (intro to_double_Finite) simp_all
  then have kk: "float_truediv (Finite fc) (Finite (fatigue_base w + 5)) = Some (Finite k)"
    using fb(1) unfolding k_def by simp
  have "to_double (k * T) = Finite (k * T)" using kT0 xk L by (intro to_double_Finite) simp_all
  then have kT: "float_mul (Finite k) (Finite T) = Finite (k * T)" by simp
  have "calculate_energy_avg_double w fc T =
     Some (Finite (if k * T < 0.001 then 1 else (1 - exp (- (k * T))) / (k * T)))"
  proof (cases "k * T < 0.001")
    case True
    then show ?thesis
      unfolding calculate_energy_avg_double_def d kk
      by (simp only: Option.bind.simps kT float_less.simps if_True)
  next
    case False
    then have "(0.001::real) \<le> k * T" by (simp only: not_less)
    then have pos: "0 < k * T" by (rule less_le_trans[rotated]) simp
    have "to_double (- k * T) = Finite (- (k * T))"
      using pos xk L by (simp add: to_double_Finite)
    then have nkT: "float_mul (float_neg (Finite k)) (Finite T) = Finite (- (k * T))" by simp
    have e1: "exp (- (k * T)) < 1" using pos by simp
    have "\<not> double_limit \<le> exp (- (k * T))" using e1 double_limit_large by linarith
    then have ex: "math_exp (Finite (- (k * T))) = Some (Finite (exp (- (k * T))))"
      by (simp only: math_exp.simps if_False)
    have e0: "0 < exp (- (k * T))" by simp
    have "to_double (1 + - exp (- (k * T))) = Finite (1 + - exp (- (k * T)))"
      using e0 e1 double_limit_large by (intro to_double_Finite) linarith+
    then have "to_double (1 + - exp (- (k * T))) = Finite (1 - exp (- (k * T)))" by simp
    then have sub: "float_sub (Finite 1) (Finite (exp (- (k * T)))) = Finite (1 - exp (- (k * T)))"
      by (simp add: float_sub_def)
    have v0: "0 < (1 - exp (- (k * T))) / (k * T)" by (rule energy_formula_pos[OF pos])
    have v1: "(1 - exp (- (k * T))) / (k * T) < 1" by (rule energy_formula_less_one[OF pos])
    have td: "to_double ((1 - exp (- (k * T))) / (k * T)) = Finite ((1 - exp (- (k * T))) / (k * T))"
      using v0 v1 double_limit_large by (intro to_double_Finite) linarith+
    have ne: "k * T \<noteq> 0" using pos by (rule less_imp_neq[THEN not_sym])
    have dv: "float_truediv (Finite (1 - exp (- (k * T)))) (Finite (k * T)) =
        Some (Finite ((1 - exp (- (k * T))) / (k * T)))"
      by (simp only: float_truediv.simps ne if_False pyfloat.case td)
    show ?thesis
      unfolding calculate_energy_avg_double_def d kk
      using False by (simp only: Option.bind.simps kT nkT ex sub dv float_less.simps if_False)
  qed
  then show ?thesis unfolding k_def .
qed


text \<open>Where nothing leaves the range, the two models agree.\<close>

lemma energy_double_is_real:
  assumes "fatigue_base w > - 5" "fatigue_base w + 5 < double_limit" "0 \<le> fc" "1 \<le> T"
    and "fc / (fatigue_base w + 5) * T < double_limit"
  shows "calculate_energy_avg_double w fc T = map_option Finite (calculate_energy_avg w fc T)"
  using energy_double_in_range[OF assms] assms(1) by (simp add: energy_value)


subsection \<open>The rotation phase's log\<close>

lemma learned_average_obs:
  "learned_average fws w s =
     (if observations fws w s = [] then 0
      else sum_list (observations fws w s) / real (length (observations fws w s)))"
  by (simp add: learned_average_def observations_def average_of_obs split: option.splits)

lemma spec_adjustment_cong:
  assumes "\<And>w. observations f w s = observations g w s"
  shows "spec_adjustment f ts os s p = spec_adjustment g ts os s p"
proof -
  have h: "learned_average f w s = learned_average g w s" for w
    unfolding learned_average_obs assms ..
  show ?thesis unfolding spec_adjustment_def h ..
qed

text \<open>Partial correctness of a loop from an invariant that knows the items already seen.\<close>

lemma for_loop_preserves_from:
  assumes "for_loop body ys s = Some s'" and "xs = pre @ ys" and "I pre s"
    and "\<And>pre x post s s'. xs = pre @ x # post \<Longrightarrow> I pre s \<Longrightarrow> body x s = Some s' \<Longrightarrow>
            I (pre @ [x]) s'"
  shows "I xs s'"
  using assms(1,2,3)
proof (induction ys arbitrary: pre s)
  case Nil
  then show ?case by simp
next
  case (Cons y ys)
  from Cons.prems(1) obtain s1 where s1: "body y s = Some s1" "for_loop body ys s1 = Some s'"
    by (auto simp: bind_eq_Some_conv)
  have "I (pre @ [y]) s1" using assms(4)[OF Cons.prems(2) Cons.prems(3) s1(1)] .
  moreover have "xs = (pre @ [y]) @ ys" using Cons.prems(2) by simp
  ultimately show ?case using Cons.IH[OF s1(2)] by blast
qed

lemma for_loop_preserves_prefix:
  assumes "for_loop body xs s = Some s'" and "I [] s"
    and "\<And>pre x post s s'. xs = pre @ x # post \<Longrightarrow> I pre s \<Longrightarrow> body x s = Some s' \<Longrightarrow>
            I (pre @ [x]) s'"
  shows "I xs s'"
proof (rule for_loop_preserves_from[where pre = "[]" and I = I, OF assms(1)])
  show "xs = [] @ xs" by simp
  show "I [] s" by (rule assms(2))
next
  fix pre x post s s'
  assume "xs = pre @ x # post" "I pre s" "body x s = Some s'"
  then show "I (pre @ [x]) s'" by (rule assms(3))
qed

lemma record_rotation_facts:
  assumes step: "record_rotation bp cp temp orig p (s, w) (fws, pc) = Some (fws', pc')"
    and shape: "same_shape orig temp"
    and occ: "\<exists>seq. map_of temp s = Some seq \<and> p < length seq \<and> seq ! p = w"
  shows "(fws' = fws \<and> pc' = pc) \<or>
         (\<exists>base current temp_seq orig_seq raw adjusted.
            map_of bp s = Some base \<and> map_of cp s = Some current \<and>
            map_of temp s = Some temp_seq \<and> map_of orig s = Some orig_seq \<and>
            length temp_seq = length orig_seq \<and> p < length temp_seq \<and> temp_seq ! p = w \<and>
            raw = spec_raw_percentage current base \<and>
            adjusted = raw - spec_adjustment fws temp_seq orig_seq s p \<and>
            pc' = dict_set s (raw, adjusted, w) pc \<and>
            observations fws w s = [] \<and>
            record_for w s adjusted fws = Some fws')"
proof -
  from step have "\<exists>base current fw. map_of bp s = Some base \<and> map_of cp s = Some current \<and>
      map_of (factory_worker_dict fws) w = Some fw \<and>
      (if has_data_for_station fw s then Some (fws, pc)
       else map_of temp s \<bind>
         (\<lambda>temp_seq. for_loop (adjustment_step fws orig s p) (enumerate 0 temp_seq) 0 \<bind>
           (\<lambda>adjustment.
              record_for w s ((if base \<noteq> 0 then current / base * 100 else 100) - adjustment) fws \<bind>
              (\<lambda>fws'. Some (fws', dict_set s (if base \<noteq> 0 then current / base * 100 else 100,
                     (if base \<noteq> 0 then current / base * 100 else 100) - adjustment, w) pc))))) =
        Some (fws', pc')"
    unfolding record_rotation_def Let_def prod.case fst_conv snd_conv bind_eq_Some_conv by blast
  then obtain base current fw where b: "map_of bp s = Some base" "map_of cp s = Some current"
    "map_of (factory_worker_dict fws) w = Some fw"
    and rem: "(if has_data_for_station fw s then Some (fws, pc)
       else map_of temp s \<bind>
         (\<lambda>temp_seq. for_loop (adjustment_step fws orig s p) (enumerate 0 temp_seq) 0 \<bind>
           (\<lambda>adjustment.
              record_for w s ((if base \<noteq> 0 then current / base * 100 else 100) - adjustment) fws \<bind>
              (\<lambda>fws'. Some (fws', dict_set s (if base \<noteq> 0 then current / base * 100 else 100,
                     (if base \<noteq> 0 then current / base * 100 else 100) - adjustment, w) pc))))) =
        Some (fws', pc')"
    by blast
  show ?thesis
  proof (cases "has_data_for_station fw s")
    case True
    with rem show ?thesis by simp
  next
    case False
    from occ obtain temp_seq where t: "map_of temp s = Some temp_seq" "p < length temp_seq"
      "temp_seq ! p = w" by blast
    from same_shape_lookup[OF same_shape_sym[OF shape] t(1)] obtain orig_seq where
      o: "map_of orig s = Some orig_seq" "length orig_seq = length temp_seq" by blast
    define raw where "raw = (if base \<noteq> 0 then current / base * 100 else 100)"
    from rem False have "map_of temp s \<bind>
         (\<lambda>temp_seq. for_loop (adjustment_step fws orig s p) (enumerate 0 temp_seq) 0 \<bind>
           (\<lambda>adjustment. record_for w s (raw - adjustment) fws \<bind>
              (\<lambda>fws'. Some (fws', dict_set s (raw, raw - adjustment, w) pc)))) = Some (fws', pc')"
      unfolding raw_def by (simp only: if_False)
    then obtain adj where
      adj: "for_loop (adjustment_step fws orig s p) (enumerate 0 temp_seq) 0 = Some adj"
      and rec: "record_for w s (raw - adj) fws = Some fws'"
      and pc': "pc' = dict_set s (raw, raw - adj, w) pc"
      unfolding t(1) bind_eq_Some_conv option.inject prod.inject Option.bind.simps by blast
    have adj_spec: "adj = spec_adjustment fws temp_seq orig_seq s p"
      using adjustment_is_spec[OF adj o(1)] o(2) by simp
    have none: "observations fws w s = []"
      using False b(3) by (simp add: observations_def has_data_iff)
    have raw: "raw = spec_raw_percentage current base"
      by (simp add: raw_def spec_raw_percentage_def)
    have len: "length temp_seq = length orig_seq" using o(2) by simp
    have "raw - adj = raw - spec_adjustment fws temp_seq orig_seq s p" using adj_spec by simp
    with b(1,2) t o(1) len raw pc' none rec show ?thesis by blast
  qed
qed

lemma rotation_entry_snapshot:
  assumes "rotation_entry tws tasks bp orig model snap temp p e"
    and "observations snap' (snd (snd (snd e))) (fst e) = observations snap (snd (snd (snd e))) (fst e)"
  shows "rotation_entry tws tasks bp orig model snap' temp p e"
  using assms by (cases e) (auto simp: rotation_entry_def)

lemma record_loop_entries:
  assumes loop: "for_loop (record_rotation bp cp temp orig p) xs (model, []) = Some (snap, pc)"
    and sim: "simulate_station_performance tws tasks temp = Some cp"
    and shape: "same_shape orig temp"
    and occ: "\<And>s w. (s, w) \<in> set xs \<Longrightarrow>
        \<exists>seq. map_of temp s = Some seq \<and> p < length seq \<and> seq ! p = w"
    and dist: "distinct (map fst xs)"
  shows "list_all (rotation_entry tws tasks bp orig model snap temp p) pc"
proof -
  define J where "J = (\<lambda>(pre :: (int \<times> worker_id) list) (y :: FactoryWorkerProfile list \<times> comparison).
      (\<forall>w' s'. s' \<notin> fst ` set pre \<longrightarrow> observations (fst y) w' s' = observations model w' s') \<and>
      list_all (\<lambda>e. fst e \<in> fst ` set pre \<and>
                  rotation_entry tws tasks bp orig model (fst y) temp p e) (snd y))"
  have "J xs (snap, pc)"
  proof (rule for_loop_preserves_prefix[OF loop, where I = J])
    show "J [] (model, [])" by (simp add: J_def)
  next
    fix pre x post and y y' :: "FactoryWorkerProfile list \<times> comparison"
    assume split: "xs = pre @ x # post" and inv: "J pre y"
      and step: "record_rotation bp cp temp orig p x y = Some y'"
    obtain s w where x: "x = (s, w)" by (cases x) auto
    obtain f c where y: "y = (f, c)" by (cases y) auto
    obtain f' c' where y': "y' = (f', c')" by (cases y') auto
    from dist split x have fresh: "s \<notin> fst ` set pre" by auto
    have mem: "(s, w) \<in> set xs" using split x by simp
    from inv y have same: "\<And>w' s'. s' \<notin> fst ` set pre \<Longrightarrow>
        observations f w' s' = observations model w' s'"
      and old: "list_all (\<lambda>e. fst e \<in> fst ` set pre \<and>
                  rotation_entry tws tasks bp orig model f temp p e) c"
      by (simp_all add: J_def)
    from record_rotation_facts[OF step[unfolded x y y'] shape occ[OF mem]]
    show "J (pre @ [x]) y'"
    proof
      assume "f' = f \<and> c' = c"
      with same old show ?thesis unfolding J_def y' x
        by (auto simp: list_all_iff)
    next
      assume "\<exists>base current temp_seq orig_seq raw adjusted.
            map_of bp s = Some base \<and> map_of cp s = Some current \<and>
            map_of temp s = Some temp_seq \<and> map_of orig s = Some orig_seq \<and>
            length temp_seq = length orig_seq \<and> p < length temp_seq \<and> temp_seq ! p = w \<and>
            raw = spec_raw_percentage current base \<and>
            adjusted = raw - spec_adjustment f temp_seq orig_seq s p \<and>
            c' = dict_set s (raw, adjusted, w) c \<and>
            observations f w s = [] \<and>
            record_for w s adjusted f = Some f'"
      then obtain base current temp_seq orig_seq raw adjusted where r:
        "map_of bp s = Some base" "map_of cp s = Some current"
        "map_of temp s = Some temp_seq" "map_of orig s = Some orig_seq"
        "length temp_seq = length orig_seq" "p < length temp_seq" "temp_seq ! p = w"
        "raw = spec_raw_percentage current base"
        "adjusted = raw - spec_adjustment f temp_seq orig_seq s p"
        "c' = dict_set s (raw, adjusted, w) c"
        "observations f w s = []"
        "record_for w s adjusted f = Some f'"
        by blast
      note ro = record_for_observations[OF r(12)]
      have adj: "spec_adjustment f temp_seq orig_seq s p = spec_adjustment model temp_seq orig_seq s p"
        by (rule spec_adjustment_cong) (rule same[OF fresh])
      have none: "observations model w s = []" using same[OF fresh, of w] r(11) by simp
      have one: "observations f' w s = [adjusted]" using ro[of w s] r(11) by simp
      have new: "rotation_entry tws tasks bp orig model f' temp p (s, raw, adjusted, w)"
        unfolding rotation_entry_def prod.case
        using sim r(1-8) r(9)[unfolded adj] none one by blast
      have keep: "fst e \<in> fst ` set (pre @ [x]) \<and>
            rotation_entry tws tasks bp orig model f' temp p e"
        if e: "fst e \<in> fst ` set pre \<and> rotation_entry tws tasks bp orig model f temp p e" for e
      proof -
        from e fresh have "fst e \<noteq> s" by auto
        then have "observations f' (snd (snd (snd e))) (fst e) =
            observations f (snd (snd (snd e))) (fst e)"
          using ro[of "snd (snd (snd e))" "fst e"] by simp
        from rotation_entry_snapshot[OF _ this] e show ?thesis by auto
      qed
      have "list_all (\<lambda>e. fst e \<in> fst ` set (pre @ [x]) \<and>
                  rotation_entry tws tasks bp orig model f' temp p e) c'"
        unfolding r(10)
      proof (rule list_all_dict_set)
        show "list_all (\<lambda>e. fst e \<in> fst ` set (pre @ [x]) \<and>
                  rotation_entry tws tasks bp orig model f' temp p e) c"
          using old keep by (simp add: list_all_iff)
        show "fst (s, raw, adjusted, w) \<in> fst ` set (pre @ [x]) \<and>
            rotation_entry tws tasks bp orig model f' temp p (s, raw, adjusted, w)"
          using new x by simp
      qed
      moreover have "\<forall>w' s'. s' \<notin> fst ` set (pre @ [x]) \<longrightarrow>
          observations f' w' s' = observations model w' s'"
      proof (intro allI impI)
        fix w' s' assume n: "s' \<notin> fst ` set (pre @ [x])"
        then have "s' \<noteq> s" "s' \<notin> fst ` set pre" using x by auto
        then show "observations f' w' s' = observations model w' s'"
          using ro[of w' s'] same[of s' w'] by simp
      qed
      ultimately show ?thesis unfolding J_def y' by simp
    qed
  qed
  then show ?thesis by (simp add: J_def list_all_iff)
qed

lemma latest_snapshot_snoc:
  "latest_snapshot (es @ [e]) =
     (case event_snapshot e of Some snap \<Rightarrow> Some snap | None \<Rightarrow> latest_snapshot es)"
  by (induction es) (auto split: option.splits)

lemma rotation_log_ok_Nil [simp]: "rotation_log_ok tws tasks bp orig []"
  by (simp add: rotation_log_ok_def)

lemma rotation_log_ok_snoc:
  "rotation_log_ok tws tasks bp orig (es @ [e]) \<longleftrightarrow>
     rotation_log_ok tws tasks bp orig es \<and> rotation_event_ok tws tasks bp orig es e"
proof
  assume ok: "rotation_log_ok tws tasks bp orig (es @ [e])"
  have "rotation_event_ok tws tasks bp orig before e'" if "es = before @ e' # after"
    for before e' after
  proof -
    from that have "es @ [e] = before @ e' # (after @ [e])" by simp
    with ok show ?thesis unfolding rotation_log_ok_def by blast
  qed
  moreover have "rotation_event_ok tws tasks bp orig es e"
    using ok unfolding rotation_log_ok_def by (metis append_Nil2 append_assoc append_Cons)
  ultimately show "rotation_log_ok tws tasks bp orig es \<and> rotation_event_ok tws tasks bp orig es e"
    unfolding rotation_log_ok_def by blast
next
  assume r: "rotation_log_ok tws tasks bp orig es \<and> rotation_event_ok tws tasks bp orig es e"
  show "rotation_log_ok tws tasks bp orig (es @ [e])"
    unfolding rotation_log_ok_def
  proof (intro allI impI)
    fix before e' after assume eq: "es @ [e] = before @ e' # after"
    show "rotation_event_ok tws tasks bp orig before e'"
    proof (cases after rule: rev_cases)
      case Nil
      with eq have "before = es" "e' = e" by simp_all
      with r show ?thesis by simp
    next
      case (snoc after' z)
      with eq have "es @ [e] = (before @ e' # after') @ [z]" by simp
      then have "es = before @ e' # after'" by (simp only: append1_eq_conv)
      with r show ?thesis unfolding rotation_log_ok_def by blast
    qed
  qed
qed

lemma collector_log_ok_snoc:
  assumes "collector_log_ok tws tasks bp orig st"
    and "st_log st' = st_log st @ [e]"
    and "rotation_event_ok tws tasks bp orig (st_log st) e"
    and "event_snapshot e = Some (st_workers st') \<or>
         (event_snapshot e = None \<and> st_workers st' = st_workers st)"
  shows "collector_log_ok tws tasks bp orig st'"
  using assms
  by (auto simp: collector_log_ok_def rotation_log_ok_snoc latest_snapshot_snoc)

lemma rotation_step_log:
  assumes step: "rotation_step tws tasks bp orig p c r (temp, st) = Some (temp', st')"
    and shape: "same_shape orig temp"
    and c: "cohort orig p = Some c"
    and ok: "collector_log_ok tws tasks bp orig st"
  shows "same_shape orig temp' \<and> collector_log_ok tws tasks bp orig st'"
proof -
  let ?ss = "map fst c" and ?ws = "rotated r (map snd c)"
  from rotation_step_Some[OF step] obtain cp x where
    pl: "for_loop (place_worker p) (zip ?ss ?ws) temp = Some temp'"
    and sim: "simulate_station_performance tws tasks temp' = Some cp"
    and rl: "for_loop (record_rotation bp cp temp' orig p) (zip ?ss ?ws) (st_workers st, []) = Some x"
    and st': "st' = st\<lparr>st_workers := fst x,
             st_log := st_log st @ [RotationEvent (st_cycle st) p r temp' (snd x) (fst x)],
             st_cycle := st_cycle st + 1\<rparr>"
    by blast
  have shape': "same_shape orig temp'"
    using shape place_loop_shape[OF pl] by (rule same_shape_trans)
  have d: "distinct ?ss" and pos_o: "\<forall>s\<in>set ?ss. \<exists>seq. map_of orig s = Some seq \<and> p < length seq"
    using cohort_stations[OF c] by simp_all
  have pos_t: "\<forall>s\<in>set ?ss. \<exists>seq. map_of temp s = Some seq \<and> p < length seq"
  proof
    fix s assume "s \<in> set ?ss"
    with pos_o obtain seq where "map_of orig s = Some seq" "p < length seq" by blast
    with same_shape_lookup[OF shape this(1)] show "\<exists>seq. map_of temp s = Some seq \<and> p < length seq"
      by auto
  qed
  have len: "length ?ws = length ?ss" by simp
  from place_loop[OF d len pos_t] pl have placed:
    "\<forall>i<length ?ss. map_of temp' (?ss ! i) = Some ((the (map_of temp (?ss ! i)))[p := ?ws ! i])"
    by auto
  have occ: "\<exists>seq. map_of temp' s = Some seq \<and> p < length seq \<and> seq ! p = w"
    if "(s, w) \<in> set (zip ?ss ?ws)" for s w
  proof -
    from that obtain i where i: "i < length ?ss" "s = ?ss ! i" "w = ?ws ! i"
      by (auto simp: set_zip)
    then have "s \<in> set ?ss" by (metis nth_mem)
    with pos_t obtain seq where seq: "map_of temp s = Some seq" "p < length seq" by blast
    from placed i have "map_of temp' s = Some (seq[p := w])" using seq by simp
    then show ?thesis using seq(2) by simp
  qed
  have dz: "distinct (map fst (zip ?ss ?ws))" using d len by (simp add: map_fst_zip)
  obtain snap pc where x: "x = (snap, pc)" by (cases x) auto
  have "list_all (rotation_entry tws tasks bp orig (st_workers st) snap temp' p) pc"
    by (rule record_loop_entries[OF rl[unfolded x] sim shape' occ dz])
  moreover have "latest_snapshot (st_log st) = Some (st_workers st)"
    using ok by (simp add: collector_log_ok_def)
  ultimately have ev: "rotation_event_ok tws tasks bp orig (st_log st)
      (RotationEvent (st_cycle st) p r temp' pc snap)"
    by (simp add: rotation_event_ok_def)
  have "collector_log_ok tws tasks bp orig st'"
    by (rule collector_log_ok_snoc[OF ok _ ev]) (simp_all add: st' x)
  with shape' show ?thesis by simp
qed

lemma position_step_log:
  assumes step: "position_step tws tasks bp orig m p (cur, st) = Some (cur', st')"
    and shape: "same_shape orig cur"
    and ok: "collector_log_ok tws tasks bp orig st"
  shows "same_shape orig cur' \<and> collector_log_ok tws tasks bp orig st'"
proof -
  from step obtain needs where needs: "check_position_needs_testing (st_workers st) orig p = Some needs"
    unfolding position_step_def by (auto simp: bind_eq_Some_conv)
  show ?thesis
  proof (cases needs)
    case False
    with step needs have r: "cur' = cur" "st' = st\<lparr>st_log := st_log st @ [SkipEvent p cur]\<rparr>"
      unfolding position_step_def by auto
    have "collector_log_ok tws tasks bp orig st'"
      by (rule collector_log_ok_snoc[OF ok, where e = "SkipEvent p cur"])
         (simp_all add: r rotation_event_ok_def)
    with r shape show ?thesis by simp
  next
    case True
    with step needs obtain c where c: "cohort orig p = Some c"
      unfolding position_step_def by (auto simp: bind_eq_Some_conv)
    show ?thesis
    proof (cases "c = []")
      case True
      with step needs \<open>needs\<close> c have "cur' = cur" "st' = st"
        unfolding position_step_def by auto
      then show ?thesis using shape ok by simp
    next
      case False
      with step needs \<open>needs\<close> c obtain temp st1 where
        rl: "for_loop (rotation_step tws tasks bp orig p c) [0..<length c] (cur, st) = Some (temp, st1)"
        and rest: "(if int p < int m - 1 then
                    do {
                      (current_assignment', opt_details) \<leftarrow>
                        optimize_position (st_workers st1) cur p;
                      Some (current_assignment',
                            st1\<lparr>st_log := st_log st1 @
                                  [OptimizationEvent p current_assignment' opt_details
                                     (st_workers st1)]\<rparr>)
                    }
                  else Some (cur, st1)) = Some (cur', st')"
        unfolding position_step_def by (auto simp: bind_eq_Some_conv)
      have "same_shape orig (fst (temp, st1)) \<and> collector_log_ok tws tasks bp orig (snd (temp, st1))"
      proof (rule for_loop_preserves[OF rl, where
            I = "\<lambda>y. same_shape orig (fst y) \<and> collector_log_ok tws tasks bp orig (snd y)"])
        show "same_shape orig (fst (cur, st)) \<and> collector_log_ok tws tasks bp orig (snd (cur, st))"
          using shape ok by simp
      next
        fix x and y y' :: "assignment \<times> collector"
        assume inv: "same_shape orig (fst y) \<and> collector_log_ok tws tasks bp orig (snd y)"
          and b: "rotation_step tws tasks bp orig p c x y = Some y'"
        obtain a1 s1 where y: "y = (a1, s1)" by (cases y) auto
        obtain a2 s2 where y': "y' = (a2, s2)" by (cases y') auto
        from rotation_step_log[OF b[unfolded y y'] _ c] inv y
        show "same_shape orig (fst y') \<and> collector_log_ok tws tasks bp orig (snd y')"
          unfolding y' by simp
      qed
      then have ok1: "collector_log_ok tws tasks bp orig st1" by simp
      show ?thesis
      proof (cases "int p < int m - 1")
        case True
        with rest obtain det where o: "optimize_position (st_workers st1) cur p = Some (cur', det)"
          and st': "st' = st1\<lparr>st_log := st_log st1 @
                                  [OptimizationEvent p cur' det (st_workers st1)]\<rparr>"
          by (auto simp: bind_eq_Some_conv)
        have "same_shape orig cur'"
          using shape optimize_position_shape[OF o] by (rule same_shape_trans)
        moreover have "collector_log_ok tws tasks bp orig st'"
          by (rule collector_log_ok_snoc[OF ok1,
                where e = "OptimizationEvent p cur' det (st_workers st1)"])
             (simp_all add: st' rotation_event_ok_def)
        ultimately show ?thesis by simp
      next
        case False
        with rest have "cur' = cur" "st' = st1" by simp_all
        with shape ok1 show ?thesis by simp
      qed
    qed
  qed
qed

lemma rotation_phase_log:
  assumes "rotation_phase tws tasks bp initial st = Some (cur, st')"
    and "collector_log_ok tws tasks bp initial st"
  shows "collector_log_ok tws tasks bp initial st'"
proof -
  from assms(1) obtain m where
    loop: "for_loop (position_step tws tasks bp initial (nat m)) [0..<nat m] (initial, st) = Some (cur, st')"
    unfolding rotation_phase_def by (auto simp: bind_eq_Some_conv)
  have "same_shape initial (fst (cur, st')) \<and> collector_log_ok tws tasks bp initial (snd (cur, st'))"
  proof (rule for_loop_preserves[OF loop, where
        I = "\<lambda>y. same_shape initial (fst y) \<and> collector_log_ok tws tasks bp initial (snd y)"])
    show "same_shape initial (fst (initial, st)) \<and>
        collector_log_ok tws tasks bp initial (snd (initial, st))"
      using assms(2) by simp
  next
    fix x and y y' :: "assignment \<times> collector"
    assume inv: "same_shape initial (fst y) \<and> collector_log_ok tws tasks bp initial (snd y)"
      and b: "position_step tws tasks bp initial (nat m) x y = Some y'"
    obtain a1 s1 where y: "y = (a1, s1)" by (cases y) auto
    obtain a2 s2 where y': "y' = (a2, s2)" by (cases y') auto
    from position_step_log[OF b[unfolded y y']] inv y
    show "same_shape initial (fst y') \<and> collector_log_ok tws tasks bp initial (snd y')"
      unfolding y' by simp
  qed
  then show ?thesis by simp
qed

lemma probe_station_log_ok:
  assumes "probe_station tws tasks bp' a wid cur s st = Some st'"
    and ok: "collector_log_ok tws tasks bp orig st"
  shows "collector_log_ok tws tasks bp orig st'"
proof -
  from probe_station_Some[OF assms(1)] obtain temp pct fws' where
    st': "st' = st\<lparr>st_workers := fws',
             st_log := st_log st @ [IncompleteFixEvent wid s temp pct fws']\<rparr>"
    by blast
  show ?thesis
    by (rule collector_log_ok_snoc[OF ok, where e = "IncompleteFixEvent wid s temp pct fws'"])
       (simp_all add: st' rotation_event_ok_def)
qed

lemma gap_filler_log_ok:
  assumes run: "collect_incomplete_worker_data_ui tws tasks a st = Some (a', st')"
    and ok: "collector_log_ok tws tasks bp orig st"
  shows "collector_log_ok tws tasks bp orig st'"
proof (cases "incomplete_workers (st_workers st) = []")
  case True
  with run ok show ?thesis by (simp add: collect_incomplete_worker_data_ui_def)
next
  case False
  with run obtain bp' where
    loop: "for_loop (process_worker tws tasks bp' a) (incomplete_workers (st_workers st)) st = Some st'"
    by (auto simp: collect_incomplete_worker_data_ui_def Let_def bind_eq_Some_conv)
  show ?thesis
  proof (rule for_loop_preserves[OF loop, where I = "collector_log_ok tws tasks bp orig"])
    show "collector_log_ok tws tasks bp orig st" by (rule ok)
  next
    fix wid and s1 s2 :: collector
    assume ok1: "collector_log_ok tws tasks bp orig s1"
      and pw: "process_worker tws tasks bp' a wid s1 = Some s2"
    from pw obtain worker where
      inner: "for_loop (probe_station tws tasks bp' a wid (find_current wid a))
             (filter (\<lambda>s. \<not> has_data_for_station worker s) stations) s1 = Some s2"
      by (auto simp: process_worker_def bind_eq_Some_conv)
    show "collector_log_ok tws tasks bp orig s2"
    proof (rule for_loop_preserves[OF inner, where I = "collector_log_ok tws tasks bp orig"])
      show "collector_log_ok tws tasks bp orig s1" by (rule ok1)
    next
      fix s and t1 t2 :: collector
      assume "collector_log_ok tws tasks bp orig t1"
        "probe_station tws tasks bp' a wid (find_current wid a) s t1 = Some t2"
      from probe_station_log_ok[OF this(2,1)] show "collector_log_ok tws tasks bp orig t2" .
    qed
  qed
qed

lemma collection_log:
  assumes "systematic_data_collection_ui tws fws tasks initial = Some (a', st')"
  shows "\<exists>bp. simulate_station_performance tws tasks initial = Some bp \<and>
           collector_log_ok tws tasks bp initial st'"
proof -
  from assms obtain bp fws1 cur st2 where
    bp: "simulate_station_performance tws tasks initial = Some bp"
    and base: "base_phase initial fws = Some fws1"
    and rot: "rotation_phase tws tasks bp initial
        \<lparr>st_workers = fws1, st_log = [BaseEvent initial bp fws1], st_cycle = 2\<rparr> = Some (cur, st2)"
    and fin: "(if incomplete_workers (st_workers st2) \<noteq> []
         then collect_incomplete_worker_data_ui tws tasks cur st2
         else Some (cur, st2)) = Some (a', st')"
    unfolding systematic_data_collection_ui_def Let_def
    by (auto simp: bind_eq_Some_conv)
  have "rotation_log_ok tws tasks bp initial ([] @ [BaseEvent initial bp fws1])"
    unfolding rotation_log_ok_snoc by (simp add: rotation_event_ok_def)
  then have ok1: "collector_log_ok tws tasks bp initial
      \<lparr>st_workers = fws1, st_log = [BaseEvent initial bp fws1], st_cycle = 2\<rparr>"
    by (simp add: collector_log_ok_def)
  note ok2 = rotation_phase_log[OF rot ok1]
  have "collector_log_ok tws tasks bp initial st'"
  proof (cases "incomplete_workers (st_workers st2) \<noteq> []")
    case True
    with fin have g: "collect_incomplete_worker_data_ui tws tasks cur st2 = Some (a', st')" by simp
    from gap_filler_log_ok[OF g ok2] show ?thesis .
  next
    case False
    with fin ok2 show ?thesis by simp
  qed
  with bp show ?thesis by blast
qed

subsection \<open>A run of the collector on four workers\<close>

lemma upt_0_2: "[0..<2] = [0, 1]"
  by (simp add: upt_rec)

lemma example_collector_run4:
  "\<exists>a' st'.
     systematic_data_collection_ui example_true_workers4 example_factory_workers4
       example_tasks example_assignment4 = Some (a', st') \<and>
     st_log st' = take 5 (st_log st') @
       RotationEvent 5 1 1
         [(1, [''0003'', ''0004'']), (2, [''0001'', ''0002'']), (3, []), (4, []), (5, []), (6, [])]
         [(1, 150, 125, ''0004''), (2, 200 / 3, 250 / 3, ''0002'')]
         [\<lparr>worker_id = ''0001'', performance_percentages = [(1, [100]), (2, [250 / 3])]\<rparr>,
          \<lparr>worker_id = ''0002'', performance_percentages = [(1, [100]), (2, [250 / 3])]\<rparr>,
          \<lparr>worker_id = ''0003'', performance_percentages = [(2, [100]), (1, [125])]\<rparr>,
          \<lparr>worker_id = ''0004'', performance_percentages = [(2, [100]), (1, [125])]\<rparr>]
       # drop 6 (st_log st') \<and>
     latest_snapshot (take 5 (st_log st')) =
       Some [\<lparr>worker_id = ''0001'', performance_percentages = [(1, [100]), (2, [250 / 3])]\<rparr>,
             \<lparr>worker_id = ''0002'', performance_percentages = [(1, [100])]\<rparr>,
             \<lparr>worker_id = ''0003'', performance_percentages = [(2, [100]), (1, [125])]\<rparr>,
             \<lparr>worker_id = ''0004'', performance_percentages = [(2, [100])]\<rparr>]"
  by (simp add: collector_defs run_defs example_assignment4_def example_true_workers4_def
      example_factory_workers4_def upt_0_2)

section \<open>The claims\<close>

subsection \<open>C10: energy average\<close>




subsection \<open>C7: station quotas of the solver\<close>

text \<open>
  Claim C7. For every worker count \<open>N\<close> (in particular every \<open>N \<ge> 0\<close>) and the six stations,
  the solver's quota of station \<open>i\<close> is \<open>N div 6\<close>, plus one iff \<open>i \<le> N mod 6\<close>; the quotas sum
  to \<open>N\<close>, exactly \<open>N mod 6\<close> stations get the extra worker and the other \<open>6 - N mod 6\<close> get
  the floor.
\<close>

theorem workers_needed_per_station_quota:
  "map fst (workers_needed_per_station N) = [1, 2, 3, 4, 5, 6] \<and>
   map snd (workers_needed_per_station N) =
     map (\<lambda>i. N div 6 + (if i \<le> N mod 6 then 1 else 0)) [1, 2, 3, 4, 5, 6] \<and>
   sum_list (map snd (workers_needed_per_station N)) = N \<and>
   length (filter (\<lambda>q. q = N div 6 + 1) (map snd (workers_needed_per_station N))) = nat (N mod 6) \<and>
   length (filter (\<lambda>q. q = N div 6) (map snd (workers_needed_per_station N))) = nat (6 - N mod 6)"
proof -
  have snd_eq: "map snd (workers_needed_per_station N) =
      map (\<lambda>i. N div 6 + (if i \<le> N mod 6 then 1 else 0)) [1, 2, 3, 4, 5, 6]"
    by (simp add: workers_needed_per_station_def stations_eq WSTATION_def Let_def)
  have fst_eq: "map fst (workers_needed_per_station N) = [1, 2, 3, 4, 5, 6]"
    by (simp add: workers_needed_per_station_def stations_eq WSTATION_def Let_def)
  have N: "N = 6 * (N div 6) + N mod 6" by simp
  have s: "sum_list (map (\<lambda>i. N div 6 + (if i \<le> N mod 6 then 1 else 0)) [1, 2, 3, 4, 5, 6]) = N"
    using mod6_cases[of N] N by (elim disjE) simp_all
  have e: "length (filter (\<lambda>q. q = N div 6 + 1)
      (map (\<lambda>i. N div 6 + (if i \<le> N mod 6 then 1 else 0)) [1, 2, 3, 4, 5, 6])) = nat (N mod 6)"
    using mod6_cases[of N] by (elim disjE) simp_all
  have f: "length (filter (\<lambda>q. q = N div 6)
      (map (\<lambda>i. N div 6 + (if i \<le> N mod 6 then 1 else 0)) [1, 2, 3, 4, 5, 6])) = nat (6 - N mod 6)"
    using mod6_cases[of N] by (elim disjE) simp_all
  show ?thesis
    unfolding snd_eq fst_eq using s e f by simp
qed

subsection \<open>C3: initial round-robin placement\<close>

text \<open>
  Claim C3, as amended. For every list of worker ids, \<^verbatim>\<open>create_initial_assignment_sequential\<close>
  returns an assignment over the six stations in which station \<open>r + 1\<close> holds the workers of
  indices \<open>r, r + 6, r + 12, \<dots>\<close> in that order. Hence any two stations' counts differ by at
  most one, the worker of index \<open>i\<close> sits at station \<open>i mod 6 + 1\<close>, position \<open>i div 6\<close> (reading
  position by position, and within a position station by station, gives the hire order), every
  worker is placed exactly once, and the concatenation of the stations' sequences in ascending
  station order is the hire order when there are at most six workers.
\<close>

theorem create_initial_assignment_sequential_round_robin:
  "\<exists>a. create_initial_assignment_sequential ws = Some a \<and> map fst a = stations \<and>
     (\<forall>r<6. map_of a (int r + 1) =
              Some (map (\<lambda>j. ws ! (6 * j + r)) [0..<(length ws + 5 - r) div 6])) \<and>
     (\<forall>s\<in>set stations. \<forall>t\<in>set stations.
        length (the (map_of a s)) \<le> length (the (map_of a t)) + 1) \<and>
     (\<forall>i<length ws. i div 6 < length (the (map_of a (int (i mod 6) + 1))) \<and>
        the (map_of a (int (i mod 6) + 1)) ! (i div 6) = ws ! i) \<and>
     mset (concat (map snd a)) = mset ws \<and>
     (length ws \<le> 6 \<longrightarrow> concat (map snd a) = ws)"
proof -
  from deal_empty_lookup[of ws] obtain a where a:
    "deal_sequential 0 ws empty_assignment = Some a" "map fst a = stations"
    "\<forall>r<6. map_of a (int r + 1) =
              Some (map (\<lambda>j. ws ! (6 * j + r)) [0..<(length ws + 5 - r) div 6])"
    by blast
  have m: "mset (concat (map snd a)) = mset ws"
    using deal_sequential_mset[OF a(1)] by (simp add: concat_empty_assignment)
  show ?thesis
    using a m round_robin_properties[OF a(2,3)]
    unfolding create_initial_assignment_sequential_def by blast
qed

theorem create_initial_assignment_sequential_round_robin_witness:
  "length [''0001'', ''0002'', ''0003''] \<le> 6 \<and>
   (\<exists>a. create_initial_assignment_sequential [''0001'', ''0002'', ''0003''] = Some a \<and>
        concat (map snd a) = [''0001'', ''0002'', ''0003''] \<and>
        map_of a 2 = Some [''0002''] \<and>
        length (the (map_of a 1)) \<le> length (the (map_of a 6)) + 1)"
proof -
  from create_initial_assignment_sequential_round_robin[of "[''0001'', ''0002'', ''0003'']"]
  obtain a where a: "create_initial_assignment_sequential [''0001'', ''0002'', ''0003''] = Some a"
    "\<forall>r<6. map_of a (int r + 1) =
              Some (map (\<lambda>j. [''0001'', ''0002'', ''0003''] ! (6 * j + r))
                      [0..<(length [''0001'', ''0002'', ''0003''] + 5 - r) div 6])"
    "\<forall>s\<in>set stations. \<forall>t\<in>set stations.
        length (the (map_of a s)) \<le> length (the (map_of a t)) + 1"
    "length [''0001'', ''0002'', ''0003''] \<le> 6 \<longrightarrow> concat (map snd a) = [''0001'', ''0002'', ''0003'']"
    by blast
  have "map_of a (int 1 + 1) = Some [''0002'']"
    using a(2) by (subst spec[OF a(2), of 1, THEN mp]) simp_all
  moreover have "length (the (map_of a 1)) \<le> length (the (map_of a 6)) + 1"
    using a(3) by (simp add: stations_eq)
  ultimately show ?thesis using a(1,4) by simp
qed

theorem create_initial_concat_counterexample:
  "create_initial_assignment_sequential
     [''0001'', ''0002'', ''0003'', ''0004'', ''0005'', ''0006'', ''0007''] =
   Some [(1, [''0001'', ''0007'']), (2, [''0002'']), (3, [''0003'']), (4, [''0004'']),
         (5, [''0005'']), (6, [''0006''])] \<and>
   concat (map snd [(1::int, [''0001'', ''0007'']), (2, [''0002'']), (3, [''0003'']), (4, [''0004'']),
         (5, [''0005'']), (6, [''0006''])]) \<noteq>
     [''0001'', ''0002'', ''0003'', ''0004'', ''0005'', ''0006'', ''0007'']"
  by (simp add: create_initial_assignment_sequential_def empty_assignment_def stations_eq
      WSTATION_def)

subsection \<open>C4: firing a worker\<close>

text \<open>
  Claim C4, as amended. For every assignment over the six stations with \<open>n\<close> workers in which
  worker \<open>x\<close> appears exactly once, \<^verbatim>\<open>fire_worker_from_assignment\<close> returns an assignment of
  \<open>n - 1\<close> workers, holding exactly the remaining workers, dealt round-robin in their
  station-ascending, within-station order before the fire: the remaining worker of index \<open>i\<close> in
  that order sits at station \<open>i mod 6 + 1\<close>, position \<open>i div 6\<close>. The station-ascending,
  within-station order after the fire is the one before the fire when \<open>n \<le> 7\<close>.
\<close>

theorem fire_worker_from_assignment_round_robin:
  assumes "map fst asg = stations"
    and "count_list (concat (map snd asg)) x = 1"
  shows "\<exists>a'. fire_worker_from_assignment x asg = Some a' \<and> map fst a' = stations \<and>
     length (concat (map snd a')) = length (concat (map snd asg)) - 1 \<and>
     mset (concat (map snd a')) = mset (filter (\<lambda>w. w \<noteq> x) (concat (map snd asg))) \<and>
     (\<forall>i<length (filter (\<lambda>w. w \<noteq> x) (concat (map snd asg))).
        i div 6 < length (the (map_of a' (int (i mod 6) + 1))) \<and>
        the (map_of a' (int (i mod 6) + 1)) ! (i div 6) =
          filter (\<lambda>w. w \<noteq> x) (concat (map snd asg)) ! i) \<and>
     (length (concat (map snd asg)) \<le> 7 \<longrightarrow>
        concat (map snd a') = filter (\<lambda>w. w \<noteq> x) (concat (map snd asg)))"
proof -
  let ?rest = "filter (\<lambda>w. w \<noteq> x) (concat (map snd asg))"
  from deal_empty_lookup[of ?rest] obtain a where a:
    "deal_sequential 0 ?rest empty_assignment = Some a" "map fst a = stations"
    "\<forall>r<6. map_of a (int r + 1) =
              Some (map (\<lambda>j. ?rest ! (6 * j + r)) [0..<(length ?rest + 5 - r) div 6])"
    by blast
  have f: "fire_worker_from_assignment x asg = Some a"
    using a(1) by (simp add: fire_is_deal[OF assms(1)] create_initial_assignment_sequential_def)
  have m: "mset (concat (map snd a)) = mset ?rest"
    using deal_sequential_mset[OF a(1)] by (simp add: concat_empty_assignment)
  have len: "length ?rest = length (concat (map snd asg)) - 1"
    using assms(2) by (simp add: length_filter_neq)
  from m have "length (concat (map snd a)) = length ?rest" by (rule mset_eq_length)
  then have l: "length (concat (map snd a)) = length (concat (map snd asg)) - 1"
    using len by simp
  have small: "length (concat (map snd asg)) \<le> 7 \<longrightarrow> concat (map snd a) = ?rest"
    using round_robin_properties(3)[OF a(2,3)] len by simp
  show ?thesis
    using f a(2) l m round_robin_properties(2)[OF a(2,3)] small by blast
qed

theorem fire_worker_from_assignment_round_robin_witness:
  "map fst [(1, [''0001'', ''0007'']), (2, [''0002'']), (3, [''0003'']), (4, [''0004'']),
            (5, [''0005'']), (6, [''0006''])] = stations \<and>
   count_list (concat (map snd [(1::int, [''0001'', ''0007'']), (2, [''0002'']), (3, [''0003'']),
            (4, [''0004'']), (5, [''0005'']), (6, [''0006''])])) ''0002'' = 1 \<and>
   (\<exists>a'. fire_worker_from_assignment ''0002''
            [(1, [''0001'', ''0007'']), (2, [''0002'']), (3, [''0003'']), (4, [''0004'']),
             (5, [''0005'']), (6, [''0006''])] = Some a' \<and>
         length (concat (map snd a')) = 6 \<and>
         concat (map snd a') = [''0001'', ''0007'', ''0003'', ''0004'', ''0005'', ''0006''])"
proof -
  let ?asg = "[(1::int, [''0001'', ''0007'']), (2, [''0002'']), (3, [''0003'']), (4, [''0004'']),
            (5, [''0005'']), (6, [''0006''])]"
  have h1: "map fst ?asg = stations" by (simp add: stations_eq)
  have h2: "count_list (concat (map snd ?asg)) ''0002'' = 1" by simp
  from fire_worker_from_assignment_round_robin[OF h1 h2] obtain a' where a':
    "fire_worker_from_assignment ''0002'' ?asg = Some a'"
    "length (concat (map snd a')) = length (concat (map snd ?asg)) - 1"
    "length (concat (map snd ?asg)) \<le> 7 \<longrightarrow>
        concat (map snd a') = filter (\<lambda>w. w \<noteq> ''0002'') (concat (map snd ?asg))"
    by blast
  from a'(2) have l: "length (concat (map snd a')) = 6" by simp
  from a'(3) have c: "concat (map snd a') = [''0001'', ''0007'', ''0003'', ''0004'', ''0005'', ''0006'']"
    by simp
  show ?thesis using h1 h2 a'(1) l c by blast
qed

theorem fire_worker_order_counterexample:
  "count_list (concat (map snd [(1::int, [''0001'', ''0007'']), (2, [''0002'', ''0008'']),
       (3, [''0003'']), (4, [''0004'']), (5, [''0005'']), (6, [''0006''])])) ''0008'' = 1 \<and>
   fire_worker_from_assignment ''0008''
     [(1, [''0001'', ''0007'']), (2, [''0002'', ''0008'']), (3, [''0003'']), (4, [''0004'']),
      (5, [''0005'']), (6, [''0006''])] =
   Some [(1, [''0001'', ''0006'']), (2, [''0007'']), (3, [''0002'']), (4, [''0003'']),
         (5, [''0004'']), (6, [''0005''])] \<and>
   concat (map snd [(1::int, [''0001'', ''0006'']), (2, [''0007'']), (3, [''0002'']), (4, [''0003'']),
         (5, [''0004'']), (6, [''0005''])]) \<noteq>
   filter (\<lambda>w. w \<noteq> ''0008'')
     (concat (map snd [(1::int, [''0001'', ''0007'']), (2, [''0002'', ''0008'']), (3, [''0003'']),
        (4, [''0004'']), (5, [''0005'']), (6, [''0006''])]))"
  by (simp add: fire_worker_from_assignment_def empty_assignment_def stations_eq WSTATION_def)

subsection \<open>C2: the solver ignores the collector's assignment\<close>

text \<open>
  Claim C2. Two calls of \<^verbatim>\<open>find_optimal_assignment\<close> with the same profiles and the same worker
  count, and any two assignment arguments, have the same outcome: the same optimal assignment
  and the same report.
\<close>

theorem find_optimal_assignment_ignores_assignment:
  "find_optimal_assignment fws num_workers assignment1 =
   find_optimal_assignment fws num_workers assignment2"
  by (simp add: find_optimal_assignment_def)

subsection \<open>C8: the position optimiser keeps every worker placed once\<close>

text \<open>
  Claim C8. For every assignment over the six stations in which every active worker id appears
  exactly once, and for every position \<open>p\<close>, \<^verbatim>\<open>optimize_position\<close> returns an assignment over the
  six stations in which every worker id again appears exactly once: the occupants of position
  \<open>p\<close> are permuted among the stations that have that position, and all other entries and all
  sequence lengths are unchanged. An active worker id is one handed out at hiring: the
  zero-padded counter \<^verbatim>\<open>f"{worker_id:04d}"\<close>, which is never the empty string, registered
  together with a factory profile of the same id.
\<close>

theorem optimize_position_preserves_invariant:
  assumes "map fst a = stations"
    and "distinct (concat (map snd a))"
    and "set (concat (map snd a)) \<subseteq> fw_id ` set fws"
    and "[] \<notin> set (concat (map snd a))"
  shows "\<exists>a' det c c'. optimize_position fws a p = Some (a', det) \<and>
      map fst a' = stations \<and> distinct (concat (map snd a')) \<and>
      set (concat (map snd a')) = set (concat (map snd a)) \<and>
      cohort a p = Some c \<and> cohort a' p = Some c' \<and>
      map fst c' = map fst c \<and> mset (map snd c') = mset (map snd c) \<and>
      (\<forall>s\<in>set stations. length (the (map_of a' s)) = length (the (map_of a s)) \<and>
          (\<forall>q. q \<noteq> p \<longrightarrow> the (map_of a' s) ! q = the (map_of a s) ! q))"
proof -
  from optimize_position_permutes[OF assms, of p] obtain a' det c c' where r:
    "optimize_position fws a p = Some (a', det)" "map fst a' = stations"
    "mset (concat (map snd a')) = mset (concat (map snd a))"
    "cohort a p = Some c" "cohort a' p = Some c'"
    "map fst c' = map fst c" "mset (map snd c') = mset (map snd c)"
    "\<forall>s\<in>set stations. length (the (map_of a' s)) = length (the (map_of a s)) \<and>
          (\<forall>q. q \<noteq> p \<longrightarrow> the (map_of a' s) ! q = the (map_of a s) ! q)"
    by blast
  have "distinct (concat (map snd a'))"
    using mset_eq_imp_distinct_iff[OF r(3)] assms(2) by simp
  moreover have "set (concat (map snd a')) = set (concat (map snd a))"
    using r(3) by (rule mset_eq_setD)
  ultimately show ?thesis using r by blast
qed

theorem optimize_position_preserves_invariant_witness:
  "map fst [(1, [''0001'']), (2, [''0002'']), (3, []), (4, []), (5, []), (6, [])] = stations \<and>
   distinct (concat (map snd [(1::int, [''0001'']), (2, [''0002'']), (3, []), (4, []), (5, []), (6, [])])) \<and>
   set (concat (map snd [(1::int, [''0001'']), (2, [''0002'']), (3, []), (4, []), (5, []), (6, [])]))
     \<subseteq> fw_id ` set [\<lparr>worker_id = ''0001'', performance_percentages = [(1, [100])]\<rparr>,
                       \<lparr>worker_id = ''0002'', performance_percentages = [(2, [100])]\<rparr>] \<and>
   [] \<notin> set (concat (map snd [(1::int, [''0001'']), (2, [''0002'']), (3, []), (4, []), (5, []), (6, [])])) \<and>
   (\<exists>a' det. optimize_position
        [\<lparr>worker_id = ''0001'', performance_percentages = [(1, [100])]\<rparr>,
         \<lparr>worker_id = ''0002'', performance_percentages = [(2, [100])]\<rparr>]
        [(1, [''0001'']), (2, [''0002'']), (3, []), (4, []), (5, []), (6, [])] 0 = Some (a', det) \<and>
      distinct (concat (map snd a')) \<and>
      set (concat (map snd a')) = {''0001'', ''0002''})"
proof -
  let ?a = "[(1::int, [''0001'']), (2, [''0002'']), (3, []), (4, []), (5, []), (6, [])]"
  let ?fws = "[\<lparr>worker_id = ''0001'', performance_percentages = [(1::int, [100::real])]\<rparr>,
               \<lparr>worker_id = ''0002'', performance_percentages = [(2, [100])]\<rparr>]"
  have h1: "map fst ?a = stations" by (simp add: stations_eq)
  have h2: "distinct (concat (map snd ?a))" by simp
  have h3: "set (concat (map snd ?a)) \<subseteq> fw_id ` set ?fws" by simp
  have h4: "[] \<notin> set (concat (map snd ?a))" by simp
  from optimize_position_preserves_invariant[OF h1 h2 h3 h4, of 0]
  obtain a' det where "optimize_position ?fws ?a 0 = Some (a', det)"
    "distinct (concat (map snd a'))" "set (concat (map snd a')) = set (concat (map snd ?a))"
    by blast
  then show ?thesis using h1 h2 h3 h4 by auto
qed

subsection \<open>C6: the percentage recorded by a gap-filler probe\<close>




subsection \<open>C9: the gap filler's moves are temporary\<close>

text \<open>
  Claim C9. Whenever \<^verbatim>\<open>collect_incomplete_worker_data_ui\<close> returns, it returns the assignment it
  was given, unchanged; the assignment in each emitted event is the per-probe copy: the given
  assignment with this probe's worker removed from its station and put into the target station,
  whatever probes came before.
\<close>

theorem gap_filler_returns_assignment:
  assumes "collect_incomplete_worker_data_ui tws tasks a st = Some (a', st')"
  shows "a' = a \<and>
     (\<exists>new. st_log st' = st_log st @ new \<and>
        (\<forall>e\<in>set new. \<exists>wid s temp pct snap.
            e = IncompleteFixEvent wid s temp pct snap \<and>
            probe_assignment wid (find_current wid a) s a = Some temp))"
proof -
  from gap_filler_log[OF assms] obtain new where a: "a' = a" and new: "st_log st' = st_log st @ new"
    "\<forall>e\<in>set new. \<exists>bp. simulate_station_performance tws tasks a = Some bp \<and>
                            probe_event tws tasks bp a e"
    by blast
  have "\<exists>wid s temp pct snap.
            e = IncompleteFixEvent wid s temp pct snap \<and>
            probe_assignment wid (find_current wid a) s a = Some temp"
    if "e \<in> set new" for e
    using new(2) that unfolding probe_event_def by blast
  with a new(1) show ?thesis by blast
qed

theorem gap_filler_returns_assignment_witness:
  "\<exists>a' st' pct snap.
     collect_incomplete_worker_data_ui
       [example_true_worker ''0001'' 4, example_true_worker ''0002'' 6]
       example_tasks example_assignment
       \<lparr>st_workers = example_learned, st_log = [], st_cycle = 2\<rparr> = Some (a', st') \<and>
     a' = example_assignment \<and>
     st_log st' =
       [IncompleteFixEvent ''0002'' 1
          [(1, [''0002'', ''0001'']), (2, []), (3, []), (4, []), (5, []), (6, [])] pct snap] \<and>
     probe_assignment ''0002'' (find_current ''0002'' example_assignment) 1 example_assignment =
       Some [(1, [''0002'', ''0001'']), (2, []), (3, []), (4, []), (5, []), (6, [])]"
  using gap_filler_returns_assignment[OF example_gap_filler_run] example_gap_filler_run
  by auto

subsection \<open>C5: the observation recorded by the rotation phase\<close>

text \<open>
  Claim C5. Whenever \<^verbatim>\<open>systematic_data_collection_ui\<close> returns, the last snapshot in its log is
  its learned model, and every entry in the comparison of every rotation event of the log
  (station \<open>s\<close>, raw percentage, adjusted percentage, worker \<open>w\<close>) is a recording of the rotation
  phase for the occupant \<open>w\<close> of the probed position \<open>p\<close> of \<open>s\<close> in the temporary assignment, with

  \<^item> the raw percentage equal to the station's total under the temporary assignment over its
    base total (the total under the initial assignment) times \<open>100\<close>, or \<open>100\<close> if the base is zero;
  \<^item> the adjusted percentage equal to the raw one minus the adjustment: the sum, over the
    positions \<open>q \<noteq> p\<close> of the station whose occupant in the temporary assignment differs from the
    occupant of \<open>q\<close> in the original assignment (the two sequences have the same length), of
    the occupant's learned average for \<open>s\<close> minus \<open>100\<close>, the averages being those of the learned
    model the collector holds when the rotation round starts, which is the last snapshot in
    the log before the event;
  \<^item> no observation of \<open>w\<close> for \<open>s\<close> in that model, and the adjusted percentage as the one
    observation of \<open>w\<close> for \<open>s\<close> in the snapshot the event carries.
\<close>

theorem rotation_observation_formula:
  assumes "systematic_data_collection_ui tws fws tasks initial = Some (a', st')"
  shows "\<exists>bp. simulate_station_performance tws tasks initial = Some bp \<and>
    latest_snapshot (st_log st') = Some (st_workers st') \<and>
    (\<forall>before after cycle p r temp entries snap s raw adjusted w.
       st_log st' = before @ RotationEvent cycle p r temp entries snap # after \<longrightarrow>
       (s, raw, adjusted, w) \<in> set entries \<longrightarrow>
       (\<exists>model cp base current temp_seq orig_seq.
          latest_snapshot before = Some model \<and>
          simulate_station_performance tws tasks temp = Some cp \<and>
          map_of bp s = Some base \<and> map_of cp s = Some current \<and>
          map_of temp s = Some temp_seq \<and> map_of initial s = Some orig_seq \<and>
          length temp_seq = length orig_seq \<and> p < length temp_seq \<and> temp_seq ! p = w \<and>
          raw = spec_raw_percentage current base \<and>
          adjusted = raw - spec_adjustment model temp_seq orig_seq s p \<and>
          observations model w s = [] \<and> observations snap w s = [adjusted]))"
proof -
  from collection_log[OF assms] obtain bp where
    bp: "simulate_station_performance tws tasks initial = Some bp"
    and ok: "rotation_log_ok tws tasks bp initial (st_log st')"
    and latest: "latest_snapshot (st_log st') = Some (st_workers st')"
    by (auto simp: collector_log_ok_def)
  have "\<exists>model cp base current temp_seq orig_seq.
          latest_snapshot before = Some model \<and>
          simulate_station_performance tws tasks temp = Some cp \<and>
          map_of bp s = Some base \<and> map_of cp s = Some current \<and>
          map_of temp s = Some temp_seq \<and> map_of initial s = Some orig_seq \<and>
          length temp_seq = length orig_seq \<and> p < length temp_seq \<and> temp_seq ! p = w \<and>
          raw = spec_raw_percentage current base \<and>
          adjusted = raw - spec_adjustment model temp_seq orig_seq s p \<and>
          observations model w s = [] \<and> observations snap w s = [adjusted]"
    if e: "st_log st' = before @ RotationEvent cycle p r temp entries snap # after"
      and en: "(s, raw, adjusted, w) \<in> set entries"
    for before after cycle p r temp entries snap s raw adjusted w
  proof -
    from ok e have "rotation_event_ok tws tasks bp initial before
        (RotationEvent cycle p r temp entries snap)"
      unfolding rotation_log_ok_def by blast
    then obtain model where m: "latest_snapshot before = Some model"
      and all: "list_all (rotation_entry tws tasks bp initial model snap temp p) entries"
      by (auto simp: rotation_event_ok_def)
    from all en have "rotation_entry tws tasks bp initial model snap temp p (s, raw, adjusted, w)"
      by (simp add: list_all_iff)
    with m show ?thesis unfolding rotation_entry_def prod.case by blast
  qed
  with bp latest show ?thesis by blast
qed

theorem rotation_observation_formula_witness:
  "\<exists>a' st' before after temp snap model bp cp base current.
     systematic_data_collection_ui example_true_workers4 example_factory_workers4
       example_tasks example_assignment4 = Some (a', st') \<and>
     st_log st' = before @
       RotationEvent 5 1 1 temp [(1, 150, 125, ''0004''), (2, 200 / 3, 250 / 3, ''0002'')] snap
       # after \<and>
     latest_snapshot before = Some model \<and>
     simulate_station_performance example_true_workers4 example_tasks example_assignment4 = Some bp \<and>
     simulate_station_performance example_true_workers4 example_tasks temp = Some cp \<and>
     map_of bp 1 = Some base \<and> map_of cp 1 = Some current \<and>
     map_of temp 1 = Some [''0003'', ''0004''] \<and>
     map_of example_assignment4 1 = Some [''0001'', ''0002''] \<and>
     (150::real) = spec_raw_percentage current base \<and>
     (125::real) = 150 - spec_adjustment model [''0003'', ''0004''] [''0001'', ''0002''] 1 1 \<and>
     spec_adjustment model [''0003'', ''0004''] [''0001'', ''0002''] 1 1 =
       learned_average model ''0003'' 1 - 100 \<and>
     learned_average model ''0003'' 1 = 125 \<and>
     observations model ''0004'' 1 = [] \<and> observations snap ''0004'' 1 = [125]"
proof -
  let ?temp = "[(1::int, [''0003'', ''0004'']), (2, [''0001'', ''0002'']), (3, []), (4, []), (5, []), (6, [])]"
  let ?entries = "[(1::int, 150::real, 125::real, ''0004''), (2, 200 / 3, 250 / 3, ''0002'')]"
  let ?snap = "[\<lparr>worker_id = ''0001'', performance_percentages = [(1::int, [100::real]), (2, [250 / 3])]\<rparr>,
          \<lparr>worker_id = ''0002'', performance_percentages = [(1, [100]), (2, [250 / 3])]\<rparr>,
          \<lparr>worker_id = ''0003'', performance_percentages = [(2, [100]), (1, [125])]\<rparr>,
          \<lparr>worker_id = ''0004'', performance_percentages = [(2, [100]), (1, [125])]\<rparr>]"
  let ?model = "[\<lparr>worker_id = ''0001'', performance_percentages = [(1::int, [100::real]), (2, [250 / 3])]\<rparr>,
             \<lparr>worker_id = ''0002'', performance_percentages = [(1, [100])]\<rparr>,
             \<lparr>worker_id = ''0003'', performance_percentages = [(2, [100]), (1, [125])]\<rparr>,
             \<lparr>worker_id = ''0004'', performance_percentages = [(2, [100])]\<rparr>]"
  from example_collector_run4 obtain a' st' where
    run: "systematic_data_collection_ui example_true_workers4 example_factory_workers4
       example_tasks example_assignment4 = Some (a', st')"
    and log: "st_log st' = take 5 (st_log st') @ RotationEvent 5 1 1 ?temp ?entries ?snap
       # drop 6 (st_log st')"
    and latest: "latest_snapshot (take 5 (st_log st')) = Some ?model"
    by blast
  have en: "(1, 150, 125, ''0004'') \<in> set ?entries" by simp
  from rotation_observation_formula[OF run] obtain bp where
    bp: "simulate_station_performance example_true_workers4 example_tasks example_assignment4 = Some bp"
    and all: "\<forall>before after cycle p r temp entries snap s raw adjusted w.
       st_log st' = before @ RotationEvent cycle p r temp entries snap # after \<longrightarrow>
       (s, raw, adjusted, w) \<in> set entries \<longrightarrow>
       (\<exists>model cp base current temp_seq orig_seq.
          latest_snapshot before = Some model \<and>
          simulate_station_performance example_true_workers4 example_tasks temp = Some cp \<and>
          map_of bp s = Some base \<and> map_of cp s = Some current \<and>
          map_of temp s = Some temp_seq \<and> map_of example_assignment4 s = Some orig_seq \<and>
          length temp_seq = length orig_seq \<and> p < length temp_seq \<and> temp_seq ! p = w \<and>
          raw = spec_raw_percentage current base \<and>
          adjusted = raw - spec_adjustment model temp_seq orig_seq s p \<and>
          observations model w s = [] \<and> observations snap w s = [adjusted])"
    by blast
  from all[rule_format, OF log en] obtain model cp base current temp_seq orig_seq where r:
    "latest_snapshot (take 5 (st_log st')) = Some model"
    "simulate_station_performance example_true_workers4 example_tasks ?temp = Some cp"
    "map_of bp 1 = Some base" "map_of cp 1 = Some current"
    "map_of ?temp 1 = Some temp_seq" "map_of example_assignment4 1 = Some orig_seq"
    "(150::real) = spec_raw_percentage current base"
    "(125::real) = 150 - spec_adjustment model temp_seq orig_seq 1 1"
    "observations model ''0004'' 1 = []" "observations ?snap ''0004'' 1 = [125]"
    by blast
  have m: "model = ?model" using r(1) latest by simp
  have t: "temp_seq = [''0003'', ''0004'']" using r(5) by simp
  have o: "orig_seq = [''0001'', ''0002'']" using r(6) by (simp add: example_assignment4_def)
  have adj: "spec_adjustment ?model [''0003'', ''0004''] [''0001'', ''0002''] 1 1 =
      learned_average ?model ''0003'' 1 - 100"
    by (simp add: spec_adjustment_def upt_0_2)
  have avg: "learned_average ?model ''0003'' 1 = 125"
    by (simp add: learned_average_def factory_worker_dict_def dict_from_def
        get_average_percentage_def)
  have o1: "map_of example_assignment4 1 = Some [''0001'', ''0002'']"
    by (simp add: example_assignment4_def)
  have t1: "map_of ?temp 1 = Some [''0003'', ''0004'']" by simp
  show ?thesis
    using run log latest bp r(2,3,4,7) r(8)[unfolded m t o] r(9)[unfolded m] r(10) adj avg o1 t1
    by blast
qed

subsection \<open>C1: one observation for every worker and station\<close>

text \<open>
  A run that starts on profiles without observations. Take an initial assignment over the six
  stations whose workers all have a factory profile, factory profiles with distinct ids that all
  have a true profile, and tasks and true profiles for which the oracle is defined (a task per
  station, six tasks at least, no zero delivery time, no fatigue base of \<open>-5\<close>). Then
  \<^verbatim>\<open>systematic_data_collection_ui\<close> returns, and

  \<^item> its rotation phase, started on the learned model \<open>fws1\<close> left by the base phase, ends on a
    learned model that holds, for every worker and station, what \<open>fws1\<close> holds, or exactly one
    observation where \<open>fws1\<close> holds none: the rotation phase records at most one observation for
    a pair, and none for a pair that has data;
  \<^item> after the run the profiles are the same workers' in the same order, and every one of them
    has data completeness \<open>100\<close>;
  \<^item> every worker who held no observation before the run and is listed at most once in the
    initial assignment holds exactly one observation for each of the six stations, six in total.
\<close>

theorem systematic_data_collection_one_observation:
  assumes "map fst initial = stations"
    and "registered fws initial"
    and "fw_id ` set fws \<subseteq> tw_id ` set tws"
    and "oracle_defined tws tasks"
    and "distinct (map fw_id fws)"
  shows "\<exists>bp fws1 cur st2 final.
     simulate_station_performance tws tasks initial = Some bp \<and>
     base_phase initial fws = Some fws1 \<and>
     rotation_phase tws tasks bp initial
       \<lparr>st_workers = fws1, st_log = [BaseEvent initial bp fws1], st_cycle = 2\<rparr> = Some (cur, st2) \<and>
     at_most_one_more fws1 (st_workers st2) \<and>
     systematic_data_collection_ui tws fws tasks initial = Some (cur, final) \<and>
     map fw_id (st_workers final) = map fw_id fws \<and>
     (\<forall>w\<in>set (st_workers final).
        get_data_completeness w = 100 \<and>
        ((\<forall>s. observations fws (fw_id w) s = []) \<and>
         count_list (concat (map snd initial)) (fw_id w) \<le> 1 \<longrightarrow>
           (\<forall>s\<in>set stations. length (profile_obs w s) = 1) \<and>
           int (\<Sum>s\<leftarrow>stations. length (profile_obs w s)) = WSTATION))"
proof -
  from collector_run[OF assms] obtain bp fws1 cur st2 final where
    bp: "simulate_station_performance tws tasks initial = Some bp"
    and base: "base_phase initial fws = Some fws1"
    and rot: "rotation_phase tws tasks bp initial
       \<lparr>st_workers = fws1, st_log = [BaseEvent initial bp fws1], st_cycle = 2\<rparr> = Some (cur, st2)"
    and run: "systematic_data_collection_ui tws fws tasks initial = Some (cur, final)"
    and ids1: "map fw_id fws1 = map fw_id fws"
    and obs1: "\<forall>w s. observations fws1 w s =
            observations fws w s @ replicate (base_count initial w s) 100 \<or>
            observations fws1 w s = observations fws w s"
    and amo12: "at_most_one_more fws1 (st_workers st2)"
    and amo23: "at_most_one_more (st_workers st2) (st_workers final)"
    and full: "\<forall>w\<in>set (st_workers final). \<forall>s\<in>set stations. profile_obs w s \<noteq> []"
    by blast
  have amo13: "at_most_one_more fws1 (st_workers final)"
    by (rule at_most_one_more_trans[OF amo12 amo23])
  then have ids3: "map fw_id (st_workers final) = map fw_id fws"
    using ids1 by (simp add: at_most_one_more_def)
  have dist3: "distinct (map fw_id (st_workers final))" using assms(5) ids3 by simp
  have one: "length (profile_obs w s) = 1"
    if w: "w \<in> set (st_workers final)" and s: "s \<in> set stations"
      and fresh: "\<forall>s. observations fws (fw_id w) s = []"
      and once: "count_list (concat (map snd initial)) (fw_id w) \<le> 1" for w s
  proof -
    have "base_count initial (fw_id w) s \<le> 1"
      using base_count_le[of initial "fw_id w" s] once by simp
    with obs1 fresh have len1: "length (observations fws1 (fw_id w) s) \<le> 1"
      by (metis append_Nil length_replicate list.size(3) zero_le)
    have fin: "observations (st_workers final) (fw_id w) s = profile_obs w s"
      by (rule observations_distinct[OF dist3 w])
    have ne: "profile_obs w s \<noteq> []" using full w s by blast
    have "observations (st_workers final) (fw_id w) s = observations fws1 (fw_id w) s \<or>
        (observations fws1 (fw_id w) s = [] \<and>
         length (observations (st_workers final) (fw_id w) s) = 1)"
      using amo13 unfolding at_most_one_more_def by blast
    then have "length (profile_obs w s) \<le> 1" using len1 unfolding fin by auto
    moreover have "length (profile_obs w s) \<noteq> 0" using ne by simp
    ultimately show ?thesis by linarith
  qed
  have total: "int (\<Sum>s\<leftarrow>stations. length (profile_obs w s)) = WSTATION"
    if "\<forall>s\<in>set stations. length (profile_obs w s) = 1" for w
  proof -
    have e: "\<And>s. s \<in> set stations \<Longrightarrow> length (profile_obs w s) = 1" using that by blast
    have "map (\<lambda>s. length (profile_obs w s)) stations = map (\<lambda>s. 1) stations"
      by (rule map_cong[OF refl]) (rule e)
    then have "(\<Sum>s\<leftarrow>stations. length (profile_obs w s)) = (\<Sum>s\<leftarrow>stations. 1)"
      by (rule arg_cong)
    also have "\<dots> = length stations" by (simp add: sum_list_triv)
    finally show ?thesis by (simp add: stations_eq WSTATION_def)
  qed
  have "get_data_completeness w = 100 \<and>
        ((\<forall>s. observations fws (fw_id w) s = []) \<and>
         count_list (concat (map snd initial)) (fw_id w) \<le> 1 \<longrightarrow>
           (\<forall>s\<in>set stations. length (profile_obs w s) = 1) \<and>
           int (\<Sum>s\<leftarrow>stations. length (profile_obs w s)) = WSTATION)"
    if w: "w \<in> set (st_workers final)" for w
  proof -
    have "get_data_completeness w = 100" using full w by (simp add: completeness_full)
    moreover have "(\<forall>s\<in>set stations. length (profile_obs w s) = 1) \<and>
           int (\<Sum>s\<leftarrow>stations. length (profile_obs w s)) = WSTATION"
      if "\<forall>s. observations fws (fw_id w) s = []"
        and "count_list (concat (map snd initial)) (fw_id w) \<le> 1"
      using one[OF w _ that] total[of w] by blast
    ultimately show ?thesis by blast
  qed
  with bp base rot amo12 run ids3 show ?thesis by blast
qed

text \<open>The two example workers, started without observations, end with one observation for every
  station.\<close>

theorem systematic_data_collection_one_observation_witness:
  "\<exists>cur final w1 w2.
     systematic_data_collection_ui
       [example_true_worker ''0001'' 4, example_true_worker ''0002'' 6]
       [\<lparr>worker_id = ''0001'', performance_percentages = []\<rparr>,
        \<lparr>worker_id = ''0002'', performance_percentages = []\<rparr>]
       example_tasks example_assignment = Some (cur, final) \<and>
     st_workers final = [w1, w2] \<and> fw_id w1 = ''0001'' \<and> fw_id w2 = ''0002'' \<and>
     get_data_completeness w1 = 100 \<and> get_data_completeness w2 = 100 \<and>
     length (profile_obs w1 1) = 1 \<and> length (profile_obs w1 2) = 1 \<and>
     length (profile_obs w1 6) = 1 \<and> length (profile_obs w2 1) = 1 \<and>
     length (profile_obs w2 2) = 1 \<and> length (profile_obs w2 6) = 1 \<and>
     int (\<Sum>s\<leftarrow>stations. length (profile_obs w1 s)) = WSTATION"
proof -
  let ?tws = "[example_true_worker ''0001'' 4, example_true_worker ''0002'' 6]"
  let ?fws = "[\<lparr>worker_id = ''0001'', performance_percentages = []\<rparr>,
               \<lparr>worker_id = ''0002'', performance_percentages = []\<rparr>]"
  have h1: "map fst example_assignment = stations"
    by (simp add: example_assignment_def stations_eq)
  have h2: "registered ?fws example_assignment"
    by (simp add: registered_def example_assignment_def)
  have h3: "fw_id ` set ?fws \<subseteq> tw_id ` set ?tws"
    by (simp add: example_true_worker_def)
  have h4: "oracle_defined ?tws example_tasks"
    by (simp add: oracle_defined_def example_tasks_def example_true_worker_def stations_eq)
  have h5: "distinct (map fw_id ?fws)" by simp
  from systematic_data_collection_one_observation[OF h1 h2 h3 h4 h5]
  obtain cur final where
    run: "systematic_data_collection_ui ?tws ?fws example_tasks example_assignment = Some (cur, final)"
    and ids: "map fw_id (st_workers final) = map fw_id ?fws"
    and all: "\<forall>w\<in>set (st_workers final).
        get_data_completeness w = 100 \<and>
        ((\<forall>s. observations ?fws (fw_id w) s = []) \<and>
         count_list (concat (map snd example_assignment)) (fw_id w) \<le> 1 \<longrightarrow>
           (\<forall>s\<in>set stations. length (profile_obs w s) = 1) \<and>
           int (\<Sum>s\<leftarrow>stations. length (profile_obs w s)) = WSTATION)"
    by blast
  from ids obtain w1 w2 where ws: "st_workers final = [w1, w2]"
    and id1: "fw_id w1 = ''0001''" and id2: "fw_id w2 = ''0002''"
    by (auto simp: map_eq_Cons_conv)
  have fresh: "observations ?fws wid s = []" for wid s
    by (simp add: observations_def factory_worker_dict_def dict_from_def dict_set_def profile_obs_def)
  have c1: "count_list (concat (map snd example_assignment)) ''0001'' \<le> 1"
    and c2: "count_list (concat (map snd example_assignment)) ''0002'' \<le> 1"
    by (simp_all add: example_assignment_def)
  from all ws have a1: "get_data_completeness w1 = 100 \<and>
        ((\<forall>s. observations ?fws (fw_id w1) s = []) \<and>
         count_list (concat (map snd example_assignment)) (fw_id w1) \<le> 1 \<longrightarrow>
           (\<forall>s\<in>set stations. length (profile_obs w1 s) = 1) \<and>
           int (\<Sum>s\<leftarrow>stations. length (profile_obs w1 s)) = WSTATION)"
    and a2: "get_data_completeness w2 = 100 \<and>
        ((\<forall>s. observations ?fws (fw_id w2) s = []) \<and>
         count_list (concat (map snd example_assignment)) (fw_id w2) \<le> 1 \<longrightarrow>
           (\<forall>s\<in>set stations. length (profile_obs w2 s) = 1) \<and>
           int (\<Sum>s\<leftarrow>stations. length (profile_obs w2 s)) = WSTATION)"
    by simp_all
  from a1 fresh c1 id1 have r1: "get_data_completeness w1 = 100"
    "\<forall>s\<in>set stations. length (profile_obs w1 s) = 1"
    "int (\<Sum>s\<leftarrow>stations. length (profile_obs w1 s)) = WSTATION"
    by simp_all
  from a2 fresh c2 id2 have r2: "get_data_completeness w2 = 100"
    "\<forall>s\<in>set stations. length (profile_obs w2 s) = 1"
    by simp_all
  have st: "(1::int) \<in> set stations" "(2::int) \<in> set stations" "(6::int) \<in> set stations"
    by (simp_all add: stations_eq)
  from r1(2) r2(2) st have "length (profile_obs w1 1) = 1" "length (profile_obs w1 2) = 1"
     "length (profile_obs w1 6) = 1" "length (profile_obs w2 1) = 1"
     "length (profile_obs w2 2) = 1" "length (profile_obs w2 6) = 1" by blast+
  with run ws id1 id2 r1(1,3) r2(1) show ?thesis by blast
qed

text \<open>
  Claim C1 says that after a full run every worker listed once in the initial assignment holds
  exactly one observation for each station. The rotation phase skips a pair that has data, and
  the gap filler probes missing stations only, but the base phase calls
  \<^verbatim>\<open>record_performance_percentage(station_id, 100.0)\<close> without that test. The UI keeps its start
  button live after a completed run and calls the collector again on the same profile objects.
  On that second run over the two example workers every position is skipped as complete, and
  still worker 0001, listed once, ends with the two observations \<open>[100, 100]\<close> for station \<open>1\<close>.
\<close>

theorem systematic_data_collection_ui_second_run:
  "map_option (\<lambda>r. st_workers (snd r))
     (systematic_data_collection_ui
        [example_true_worker ''0001'' 4, example_true_worker ''0002'' 6]
        [\<lparr>worker_id = ''0001'', performance_percentages = []\<rparr>,
         \<lparr>worker_id = ''0002'', performance_percentages = []\<rparr>]
        example_tasks example_assignment) = Some example_collected \<and>
   map_option (\<lambda>r. observations (st_workers (snd r)) ''0001'' 1)
     (systematic_data_collection_ui
        [example_true_worker ''0001'' 4, example_true_worker ''0002'' 6]
        example_collected example_tasks example_assignment) = Some [100, 100] \<and>
   map_option (\<lambda>r. tl (st_log (snd r)))
     (systematic_data_collection_ui
        [example_true_worker ''0001'' 4, example_true_worker ''0002'' 6]
        example_collected example_tasks example_assignment) = Some [SkipEvent 0 example_assignment] \<and>
   count_list (concat (map snd example_assignment)) ''0001'' = 1 \<and>
   map_of (dict_from tw_id [example_true_worker ''0001'' 4, example_true_worker ''0002'' 6]) ''0001''
     = Some (example_true_worker ''0001'' 4)"
  by (simp add: collector_defs run_defs example_collected_def observations_def profile_obs_def)

end
